theory Spec2Isabelle
  imports Main
begin

section \<open>The multi-step input of the Connect action (src/src/addKey.ts)\<close>

text \<open>
  The extension is event driven: a step shows an input box and suspends until the host
  reports an event that settles the prompt's promise. The embedding makes the host an
  explicit script of events, consumed in order by whichever prompt is showing. Promises
  are values: a settled prompt is \<open>Some (Resolve v)\<close> or \<open>Some (Reject t)\<close>, a prompt
  whose script ends before anything settles it is \<open>None\<close> (it stays pending for ever).
\<close>

subsection \<open>Flow signals, buttons, promises\<close>

text \<open>\<^verbatim>\<open>class InputFlowAction { static back; static cancel; static resume }\<close>, three
  singletons compared by identity.\<close>

datatype InputFlowAction = Back | Cancel | Resume

text \<open>What a \<^verbatim>\<open>catch (err)\<close> can receive: one of the three singletons, or anything else.\<close>

datatype 'e thrown = Flow InputFlowAction | Other 'e

text \<open>\<^verbatim>\<open>QuickInputButtons.Back\<close> of the host, and the caller's own buttons.\<close>

datatype QuickInputButton = QuickInputButtons_Back | Custom string

text \<open>A promise of the source that either settles with a value or never settles
  (the body of \<^verbatim>\<open>shouldResume\<close> is \<^verbatim>\<open>new Promise((resolve, reject) => { /* noop */ })\<close>).\<close>

datatype 'a promise = Settles 'a | Never

text \<open>The value a text prompt resolves with: the accepted text, or the custom button
  that was triggered (\<^verbatim>\<open>resolve(<any>item)\<close>).\<close>

datatype answer = Text string | Item QuickInputButton

text \<open>How a prompt's promise settles. \<^verbatim>\<open>reject\<close> is only ever called with one of the
  three flow signals.\<close>

datatype 'a settled = Resolve 'a | Reject InputFlowAction

subsection \<open>The input box and the parameters of a prompt\<close>

text \<open>The view model of \<^verbatim>\<open>window.createInputBox()\<close>. The field \<^verbatim>\<open>value\<close> is named
  \<open>box_value\<close>; \<open>shown\<close> and \<open>disposed\<close> record the calls \<^verbatim>\<open>show()\<close> and
  \<^verbatim>\<open>dispose()\<close>.\<close>

record QuickInput =
  title :: string
  step :: nat
  totalSteps :: nat
  box_value :: string
  prompt :: string
  buttons :: "QuickInputButton list"
  validationMessage :: "string option"
  enabled :: bool
  busy :: bool
  shown :: bool
  disposed :: bool

text \<open>\<^verbatim>\<open>interface InputBoxParameters\<close>. \<open>p_validate\<close> gives the value the validation
  promise resolves with (\<open>None\<close> is \<^verbatim>\<open>undefined\<close>); when it resolves is an event of the
  script. An absent \<^verbatim>\<open>buttons\<close> is the empty list (\<^verbatim>\<open>buttons || []\<close>).\<close>

record InputBoxParameters =
  p_title :: string
  p_step :: nat
  p_totalSteps :: nat
  p_value :: string
  p_prompt :: string
  p_validate :: "string \<Rightarrow> string option"
  p_buttons :: "QuickInputButton list"
  p_shouldResume :: "bool promise"

text \<open>The driver object: \<^verbatim>\<open>private current?: QuickInput; private steps: InputStep[] = []\<close>.
  The newest step is the last element (\<^verbatim>\<open>push\<close> appends, \<^verbatim>\<open>pop\<close> removes the last).\<close>

record 's MultiStepInput =
  current :: "QuickInput option"
  steps :: "'s list"

subsection \<open>Events of the host\<close>

text \<open>
  \<^item> \<open>ChangeValue t\<close>: the user edits the text to \<open>t\<close> (the host stores it in the box and
    fires \<^verbatim>\<open>onDidChangeValue\<close>);
  \<^item> \<open>Accept\<close>: the user presses Enter (\<^verbatim>\<open>onDidAccept\<close>);
  \<^item> \<open>TriggerButton b\<close>: the host reports that the button \<open>b\<close> was pressed
    (\<^verbatim>\<open>onDidTriggerButton\<close>). The callback does not look at \<^verbatim>\<open>input.buttons\<close>: it rejects
    with \<open>Back\<close> for the Back button and resolves with any other button, whether the box
    shows it or not. That the host reports only buttons the box shows is a property of
    the script, stated where a theorem needs it;
  \<^item> \<open>Hide\<close>: the box is dismissed (\<^verbatim>\<open>onDidHide\<close>);
  \<^item> \<open>ValidationDone n\<close>: the promise returned by the \<open>n\<close>-th call of \<^verbatim>\<open>validate\<close> within
    the showing prompt resolves (its timer fires) and the handler awaiting it continues.
    Call \<open>0\<close> is \<^verbatim>\<open>let validating = validate('')\<close>. Any order of completion can be written.
\<close>

datatype event =
    ChangeValue string
  | Accept
  | TriggerButton QuickInputButton
  | Hide
  | ValidationDone nat

text \<open>Who awaits a validation promise: nobody (the initial call), the
  \<^verbatim>\<open>onDidChangeValue\<close> handler, or the \<^verbatim>\<open>onDidAccept\<close> handler; each with the text
  that was passed to \<^verbatim>\<open>validate\<close>.\<close>

datatype awaiter = Initial | ForChange | ForAccept

text \<open>The state of one call of \<^verbatim>\<open>showInputBox\<close>: the box, the promise held by the local
  variable \<^verbatim>\<open>validating\<close> (by its number), the validations in flight, and the number of
  the next call of \<^verbatim>\<open>validate\<close>.\<close>

record prompt_state =
  box :: QuickInput
  validating :: nat
  in_flight :: "(nat \<times> awaiter \<times> string) list"
  next_call :: nat

text \<open>JavaScript's \<^verbatim>\<open>!x\<close> for \<^verbatim>\<open>x: string | undefined\<close>: true for \<^verbatim>\<open>undefined\<close> and
  for the empty string.\<close>

definition falsy :: "string option \<Rightarrow> bool" where
  "falsy m = (case m of None \<Rightarrow> True | Some s \<Rightarrow> s = [])"

definition start_validate :: "awaiter \<Rightarrow> string \<Rightarrow> prompt_state \<Rightarrow> prompt_state" where
  "start_validate a t st =
     st\<lparr>in_flight := in_flight st @ [(next_call st, a, t)], next_call := Suc (next_call st)\<rparr>"

text \<open>One event, delivered to the handlers registered by \<^verbatim>\<open>showInputBox\<close>. The result is
  the settlement of the prompt's promise, if the event settles it, and the new state.\<close>

definition handle ::
  "InputBoxParameters \<Rightarrow> prompt_state \<Rightarrow> event \<Rightarrow> answer settled option \<times> prompt_state" where
  "handle p st ev =
    (case ev of
       TriggerButton item \<Rightarrow>
         (if item = QuickInputButtons_Back then (Some (Reject Back), st)
          else (Some (Resolve (Item item)), st))
     | Accept \<Rightarrow>
         (None, start_validate ForAccept (box_value (box st)) st)
     | ChangeValue t \<Rightarrow>
         (let st1 = st\<lparr>box := (box st)\<lparr>box_value := t\<rparr>\<rparr>;
              st2 = start_validate ForChange t st1
          in (None, st2\<lparr>validating := next_call st1\<rparr>))
     | Hide \<Rightarrow>
         (case p_shouldResume p of
            Never \<Rightarrow> (None, st)
          | Settles r \<Rightarrow> (Some (Reject (if r then Resume else Cancel)), st))
     | ValidationDone n \<Rightarrow>
         (case map_of (in_flight st) n of
            None \<Rightarrow> (None, st)
          | Some (a, t) \<Rightarrow>
              (let st1 = st\<lparr>in_flight := filter (\<lambda>e. fst e \<noteq> n) (in_flight st)\<rparr>
               in case a of
                    Initial \<Rightarrow> (None, st1)
                  | ForChange \<Rightarrow>
                      (if n = validating st1
                       then (None, st1\<lparr>box := (box st1)\<lparr>validationMessage := p_validate p t\<rparr>\<rparr>)
                       else (None, st1))
                  | ForAccept \<Rightarrow>
                      (let st2 = st1\<lparr>box := (box st1)\<lparr>enabled := True, busy := False\<rparr>\<rparr>
                       in if falsy (p_validate p t) then (Some (Resolve (Text t)), st2)
                          else (None, st2)))))"

text \<open>The prompt's promise: events are delivered until one settles it. The events after
  the settling one are left for the next prompt (the \<^verbatim>\<open>finally\<close> block disposes the
  subscriptions, so this prompt handles no later event).\<close>

fun pump ::
  "InputBoxParameters \<Rightarrow> prompt_state \<Rightarrow> event list
     \<Rightarrow> answer settled option \<times> prompt_state \<times> event list" where
  "pump p st [] = (None, st, [])"
| "pump p st (ev # evs) =
     (case handle p st ev of
        (Some r, st') \<Rightarrow> (Some r, st', evs)
      | (None, st') \<Rightarrow> pump p st' evs)"

text \<open>The box as \<^verbatim>\<open>showInputBox\<close> sets it up before any event, for a driver whose
  history has \<open>depth\<close> entries.\<close>

definition createInputBox :: QuickInput where
  "createInputBox =
     \<lparr>title = [], step = 0, totalSteps = 0, box_value = [], prompt = [], buttons = [],
      validationMessage = None, enabled = True, busy = False, shown = False, disposed = False\<rparr>"

definition new_box :: "InputBoxParameters \<Rightarrow> nat \<Rightarrow> QuickInput" where
  "new_box p depth =
     createInputBox\<lparr>title := p_title p, step := p_step p, totalSteps := p_totalSteps p,
       box_value := p_value p, prompt := p_prompt p,
       buttons := (if depth > 1 then [QuickInputButtons_Back] else []) @ p_buttons p\<rparr>"

definition initial_prompt :: "InputBoxParameters \<Rightarrow> nat \<Rightarrow> prompt_state" where
  "initial_prompt p depth =
     \<lparr>box = (new_box p depth)\<lparr>shown := True\<rparr>, validating = 0,
      in_flight = [(0, Initial, [])], next_call = 1\<rparr>"

text \<open>\<^verbatim>\<open>showInputBox\<close>: the previous session is disposed and the driver no longer refers
  to it (the model drops it); the new box is shown and is \<open>current\<close> while the events are
  handled, so what the handlers write to it is seen through \<open>current\<close>. The result is the
  settlement (or \<open>None\<close>), the driver's new \<open>current\<close>, and the events left.\<close>

definition showInputBox ::
  "InputBoxParameters \<Rightarrow> 's MultiStepInput \<Rightarrow> event list
     \<Rightarrow> answer settled option \<times> QuickInput option \<times> event list" where
  "showInputBox p this evs =
     (case pump p (initial_prompt p (length (steps this))) evs of
        (r, st, rest) \<Rightarrow> (r, Some (box st), rest))"

subsection \<open>The driver loop\<close>

text \<open>What awaiting a step gives: it returns the next step or nothing
  (\<^verbatim>\<open>InputStep | void\<close>), it throws, or its promise never settles.\<close>

datatype ('s, 'e) outcome = Returns "'s option" | Throws "'e thrown" | Unsettled

text \<open>The promise returned by \<^verbatim>\<open>stepThrough\<close> and \<^verbatim>\<open>MultiStepInput.run\<close>.\<close>

datatype 'e result = Resolved | Rejected "'e thrown" | NeverSettles

text \<open>\<^verbatim>\<open>Array.prototype.pop\<close>: the last element and the shortened array;
  \<^verbatim>\<open>undefined\<close> on the empty array.\<close>

definition pop :: "'a list \<Rightarrow> 'a option \<times> 'a list" where
  "pop xs = (if xs = [] then (None, []) else (Some (last xs), butlast xs))"

definition dispose :: "QuickInput \<Rightarrow> QuickInput" where
  "dispose q = q\<lparr>disposed := True\<rparr>"

text \<open>\<^verbatim>\<open>this.current.enabled = false; this.current.busy = true;\<close>\<close>

definition mark_busy :: "QuickInput \<Rightarrow> QuickInput" where
  "mark_busy q = q\<lparr>enabled := False, busy := True\<rparr>"

text \<open>The driver object a step is invoked with: the step is pushed on the history and
  the showing session, if there is one, is marked busy.\<close>

definition entered :: "'s \<Rightarrow> 's MultiStepInput \<Rightarrow> 's MultiStepInput" where
  "entered s this =
     (let this1 = this\<lparr>steps := steps this @ [s]\<rparr>
      in this1\<lparr>current := map_option mark_busy (current this1)\<rparr>)"

text \<open>
  Steps are closures in the source. Here a step is a value of a type \<open>'s\<close> and \<open>call\<close>
  says what invoking one does: given the step, the driver object (a step reads
  \<^verbatim>\<open>this.steps.length\<close> and replaces \<^verbatim>\<open>this.current\<close> through the prompt primitives; the
  history is private) and the rest of the world \<open>'w\<close>, it gives the outcome, the new
  \<open>current\<close> and the new world.

  \<^verbatim>\<open>stepThrough\<close> is the \<^verbatim>\<open>while (step)\<close> loop followed by the final dispose. A loop that
  never ends has no value (\<open>None\<close>); a step whose promise never settles leaves the
  promise of \<open>stepThrough\<close> unsettled as well (\<open>NeverSettles\<close>). A rethrown error leaves
  the function at the \<^verbatim>\<open>throw\<close>: the code after the loop is not run.
\<close>

partial_function (option) stepThrough ::
  "('s \<Rightarrow> 's MultiStepInput \<Rightarrow> 'w \<Rightarrow> ('s, 'e) outcome \<times> QuickInput option \<times> 'w)
     \<Rightarrow> 's option \<Rightarrow> 's MultiStepInput \<Rightarrow> 'w
     \<Rightarrow> ('e result \<times> 's MultiStepInput \<times> 'w) option" where
  "stepThrough call stp this w =
     (case stp of
        None \<Rightarrow> Some (Resolved, this\<lparr>current := map_option dispose (current this)\<rparr>, w)
      | Some s \<Rightarrow>
          (let this2 = entered s this
           in case call s this2 w of
                (Returns nxt, cur, w') \<Rightarrow> stepThrough call nxt (this2\<lparr>current := cur\<rparr>) w'
              | (Unsettled, cur, w') \<Rightarrow> Some (NeverSettles, this2\<lparr>current := cur\<rparr>, w')
              | (Throws err, cur, w') \<Rightarrow>
                  (let this3 = this2\<lparr>current := cur\<rparr>
                   in case err of
                        Flow Back \<Rightarrow>
                          (let st1 = snd (pop (steps this3))
                           in stepThrough call (fst (pop st1)) (this3\<lparr>steps := snd (pop st1)\<rparr>) w')
                      | Flow Resume \<Rightarrow>
                          stepThrough call (fst (pop (steps this3)))
                            (this3\<lparr>steps := snd (pop (steps this3))\<rparr>) w'
                      | Flow Cancel \<Rightarrow> stepThrough call None this3 w'
                      | Other e \<Rightarrow> Some (Rejected err, this3, w'))))"

declare stepThrough.simps [code]

text \<open>\<^verbatim>\<open>static async run(start)\<close>: a fresh driver, then the loop.\<close>

definition MultiStepInput_run ::
  "('s \<Rightarrow> 's MultiStepInput \<Rightarrow> 'w \<Rightarrow> ('s, 'e) outcome \<times> QuickInput option \<times> 'w)
     \<Rightarrow> 's \<Rightarrow> 'w \<Rightarrow> ('e result \<times> 's MultiStepInput \<times> 'w) option" where
  "MultiStepInput_run call start w =
     stepThrough call (Some start) \<lparr>current = None, steps = []\<rparr> w"

subsection \<open>The Connect action\<close>

text \<open>\<^verbatim>\<open>interface ProjectState\<close>, held as \<^verbatim>\<open>Partial<ProjectState>\<close> while it is filled:
  a field that is not set yet is \<open>None\<close>.\<close>

record ProjectState =
  name :: "string option"
  username :: "string option"
  ip :: "string option"
  key_name :: "string option"

text \<open>Everything outside the driver that Connect reads or writes: the script of host
  events still to come, the state object shared by the steps, the lines sent to the
  terminal (\<^verbatim>\<open>terminal.sendText\<close>), whether \<^verbatim>\<open>terminal.show()\<close> was called, and the
  messages given to \<^verbatim>\<open>window.showInformationMessage\<close>.\<close>

record world =
  events :: "event list"
  state :: ProjectState
  sent :: "string list"
  terminal_shown :: bool
  information :: "string list"

text \<open>An error thrown by anything but the flow signals, by its message.\<close>

type_synonym js_error = string

text \<open>The four closures \<^verbatim>\<open>input => projectX(input, state)\<close>; all capture the same state
  object, which lives in the world.\<close>

datatype InputStep = ProjectName | ProjectUsername | ProjectIp | ProjectKeyname

definition title_Connect :: string where
  "title_Connect = ''Connect to a GCP instance''"

text \<open>\<^verbatim>\<open>validateNameIsUnique\<close>: after the timer, \<^verbatim>\<open>name === 'vscode' ? 'Name not unique' : undefined\<close>.\<close>

definition validateNameIsUnique :: "string \<Rightarrow> string option" where
  "validateNameIsUnique n = (if n = ''vscode'' then Some ''Name not unique'' else None)"

text \<open>\<^verbatim>\<open>shouldResume\<close>: a promise whose executor does nothing.\<close>

definition shouldResume :: "bool promise" where
  "shouldResume = Never"

text \<open>A template literal prints an unset field as \<^verbatim>\<open>undefined\<close>.\<close>

definition render :: "string option \<Rightarrow> string" where
  "render x = (case x of None \<Rightarrow> ''undefined'' | Some s \<Rightarrow> s)"

text \<open>The steps pass no \<^verbatim>\<open>buttons\<close>, so the awaited value has type \<^verbatim>\<open>string\<close> in the
  source. For a button (which these prompts never resolve with, as no custom button is
  offered) the model stores what JavaScript prints for an object.\<close>

definition text_of :: "answer \<Rightarrow> string" where
  "text_of a = (case a of Text v \<Rightarrow> v | Item b \<Rightarrow> ''[object Object]'')"

definition text_params :: "nat \<Rightarrow> string \<Rightarrow> string \<Rightarrow> InputBoxParameters" where
  "text_params k v pr =
     \<lparr>p_title = title_Connect, p_step = k, p_totalSteps = 4, p_value = v, p_prompt = pr,
      p_validate = validateNameIsUnique, p_buttons = [], p_shouldResume = shouldResume\<rparr>"

text \<open>A step awaits its prompt. When the prompt resolves, \<open>k\<close> is the rest of the step's
  body; a rejection is thrown on to the driver; an unsettled prompt leaves the step
  unsettled.\<close>

definition await_prompt ::
  "InputBoxParameters \<Rightarrow> InputStep MultiStepInput \<Rightarrow> world
     \<Rightarrow> (string \<Rightarrow> world \<Rightarrow> InputStep option \<times> world)
     \<Rightarrow> (InputStep, js_error) outcome \<times> QuickInput option \<times> world" where
  "await_prompt p this w k =
     (case showInputBox p this (events w) of
        (Some (Resolve a), cur, rest) \<Rightarrow>
          (case k (text_of a) (w\<lparr>events := rest\<rparr>) of (nxt, w') \<Rightarrow> (Returns nxt, cur, w'))
      | (Some (Reject f), cur, rest) \<Rightarrow> (Throws (Flow f), cur, w\<lparr>events := rest\<rparr>)
      | (None, cur, rest) \<Rightarrow> (Unsettled, cur, w\<lparr>events := rest\<rparr>))"

definition sendText :: "string \<Rightarrow> world \<Rightarrow> world" where
  "sendText line w = w\<lparr>sent := sent w @ [line]\<rparr>"

definition projectName ::
  "InputStep MultiStepInput \<Rightarrow> world \<Rightarrow> (InputStep, js_error) outcome \<times> QuickInput option \<times> world" where
  "projectName this w =
     await_prompt (text_params 1 [] ''Enter the GCP project-name'') this w
       (\<lambda>v w1. let w2 = w1\<lparr>state := (state w1)\<lparr>name := Some v\<rparr>\<rparr>
                in (Some ProjectUsername,
                    sendText (''gcloud config set project '' @ render (name (state w2))) w2))"

definition projectUsername ::
  "InputStep MultiStepInput \<Rightarrow> world \<Rightarrow> (InputStep, js_error) outcome \<times> QuickInput option \<times> world" where
  "projectUsername this w =
     await_prompt (text_params 2 [] ''Enter the SSH key username'') this w
       (\<lambda>v w1. (Some ProjectIp, w1\<lparr>state := (state w1)\<lparr>username := Some v\<rparr>\<rparr>))"

definition projectIp ::
  "InputStep MultiStepInput \<Rightarrow> world \<Rightarrow> (InputStep, js_error) outcome \<times> QuickInput option \<times> world" where
  "projectIp this w =
     await_prompt
       (text_params 3 [] ''Enter the IP address of the GCP compute instance'') this w
       (\<lambda>v w1. (Some ProjectKeyname, w1\<lparr>state := (state w1)\<lparr>ip := Some v\<rparr>\<rparr>))"

text \<open>\<^verbatim>\<open>value: state.name || ''\<close>: the name when it is set and not empty, else the empty
  string.\<close>

definition projectKeyname ::
  "InputStep MultiStepInput \<Rightarrow> world \<Rightarrow> (InputStep, js_error) outcome \<times> QuickInput option \<times> world" where
  "projectKeyname this w =
     await_prompt
       (text_params 4 (case name (state w) of None \<Rightarrow> [] | Some n \<Rightarrow> n)
          ''Customized key name (GCP project-name by default)'') this w
       (\<lambda>v w1. (None, w1\<lparr>state := (state w1)\<lparr>key_name := Some v\<rparr>\<rparr>))"

text \<open>Invoking a step of Connect.\<close>

definition InputStep_call ::
  "InputStep \<Rightarrow> InputStep MultiStepInput \<Rightarrow> world
     \<Rightarrow> (InputStep, js_error) outcome \<times> QuickInput option \<times> world" where
  "InputStep_call s this w =
     (case s of
        ProjectName \<Rightarrow> projectName this w
      | ProjectUsername \<Rightarrow> projectUsername this w
      | ProjectIp \<Rightarrow> projectIp this w
      | ProjectKeyname \<Rightarrow> projectKeyname this w)"

text \<open>\<^verbatim>\<open>collectProjectInputs\<close>: a fresh state object, the wizard from the name step, then
  the state is returned (it is the \<open>state\<close> of the resulting world).\<close>

definition collectProjectInputs ::
  "(InputStep \<Rightarrow> InputStep MultiStepInput \<Rightarrow> world
      \<Rightarrow> (InputStep, js_error) outcome \<times> QuickInput option \<times> world)
     \<Rightarrow> world \<Rightarrow> (js_error result \<times> InputStep MultiStepInput \<times> world) option" where
  "collectProjectInputs call w =
     MultiStepInput_run call ProjectName
       (w\<lparr>state := \<lparr>name = None, username = None, ip = None, key_name = None\<rparr>\<rparr>)"

text \<open>Lines 96 to 101: what Connect does once \<^verbatim>\<open>await collectProjectInputs()\<close> has
  returned. \<open>ssh_dir\<close> is the setting \<^verbatim>\<open>'SSH Key Directory'\<close> of the workspace
  configuration (\<open>None\<close> when it is not set).\<close>

definition after_wizard :: "string option \<Rightarrow> world \<Rightarrow> world" where
  "after_wizard ssh_dir w =
     (let s = state w;
          w1 = w\<lparr>information := information w @
                 [''Making GCP connection with SSH key '' @ [CHR 0x27] @ render (key_name s)
                    @ [CHR 0x27]]\<rparr>;
          w2 = w1\<lparr>terminal_shown := True\<rparr>;
          w3 = sendText ''rm -f -r gcp-vscode-ssh/'' w2;
          w4 = sendText ''git clone https://github.com/andrewdircks/gcp-vscode-ssh.git'' w3
      in sendText (''bash gcp-vscode-ssh/script.sh '' @ render ssh_dir @ '' '' @ render (name s)
                     @ '' '' @ render (key_name s) @ '' '' @ render (username s)
                     @ '' '' @ render (ip s)) w4)"

text \<open>The world when Connect starts: a new terminal (\<^verbatim>\<open>window.createTerminal()\<close>) that
  was sent nothing, no message shown, and the script of the host to come.\<close>

definition initial_world :: "event list \<Rightarrow> world" where
  "initial_world evs =
     \<lparr>events = evs, state = \<lparr>name = None, username = None, ip = None, key_name = None\<rparr>,
      sent = [], terminal_shown = False, information = []\<rparr>"

text \<open>The body of Connect over any interpretation of the steps: a new terminal, the
  wizard, and, when the wizard's promise resolves, the lines after it. A rejection or
  an unsettled promise ends Connect at the \<^verbatim>\<open>await\<close>.\<close>

definition Connect_with ::
  "(InputStep \<Rightarrow> InputStep MultiStepInput \<Rightarrow> world
      \<Rightarrow> (InputStep, js_error) outcome \<times> QuickInput option \<times> world)
     \<Rightarrow> string option \<Rightarrow> event list \<Rightarrow> (js_error result \<times> world) option" where
  "Connect_with call ssh_dir evs =
     (case collectProjectInputs call (initial_world evs) of
        None \<Rightarrow> None
      | Some (r, this, w) \<Rightarrow>
          (case r of
             Resolved \<Rightarrow> Some (Resolved, after_wizard ssh_dir w)
           | Rejected t \<Rightarrow> Some (Rejected t, w)
           | NeverSettles \<Rightarrow> Some (NeverSettles, w)))"

text \<open>\<^verbatim>\<open>Connect\<close> itself: the steps are the four functions above.\<close>

definition Connect :: "string option \<Rightarrow> event list \<Rightarrow> (js_error result \<times> world) option" where
  "Connect ssh_dir evs = Connect_with InputStep_call ssh_dir evs"

subsection \<open>Scripts, example steps and observations used in the statements\<close>

text \<open>The user types the texts \<open>ts\<close> one after the other (each a change of the value),
  presses Enter, and the validation started by the accept completes. The keystroke
  validations are calls \<open>1 .. length ts\<close>, so the accept's is call \<open>length ts + 1\<close>.\<close>

definition typed :: "string list \<Rightarrow> event list" where
  "typed ts = map ChangeValue ts @ [Accept, ValidationDone (Suc (length ts))]"

text \<open>The text in the box after typing \<open>ts\<close> into a box that started with \<open>init\<close>.\<close>

definition accepted :: "string \<Rightarrow> string list \<Rightarrow> string" where
  "accepted init ts = (if ts = [] then init else last ts)"

text \<open>More generally, what the user and the timers may do at a prompt without settling
  a prompt of Connect, as long as no accept is waiting for its validation: change the
  value, let a validation complete, dismiss the box (\<^verbatim>\<open>shouldResume\<close> never settles).
  \<open>keystrokes\<close> are the texts typed among such events.\<close>

definition quiet :: "event \<Rightarrow> bool" where
  "quiet ev = (case ev of ChangeValue t \<Rightarrow> True | ValidationDone n \<Rightarrow> True | Hide \<Rightarrow> True
               | Accept \<Rightarrow> False | TriggerButton b \<Rightarrow> False)"

fun keystrokes :: "event list \<Rightarrow> string list" where
  "keystrokes [] = []"
| "keystrokes (ChangeValue t # es) = t # keystrokes es"
| "keystrokes (ev # es) = keystrokes es"

text \<open>One accepted entry at a prompt: the events \<open>es\<close>, then Enter, then the events \<open>fs\<close>
  while the validation started by the accept is running (other validations may complete,
  the user may go on typing), then the completion of that validation. The accept's
  validation is the call after the keystrokes' of \<open>es\<close>. \<open>one_accept es fs\<close> says that
  \<open>es\<close> and \<open>fs\<close> are such events: no button, no second Enter, and in \<open>fs\<close> no earlier
  completion of the accept's validation.\<close>

definition entry :: "event list \<Rightarrow> event list \<Rightarrow> event list" where
  "entry es fs = es @ [Accept] @ fs @ [ValidationDone (Suc (length (keystrokes es)))]"

definition one_accept :: "event list \<Rightarrow> event list \<Rightarrow> bool" where
  "one_accept es fs =
     (list_all quiet es \<and> list_all quiet fs
      \<and> ValidationDone (Suc (length (keystrokes es))) \<notin> set fs)"

text \<open>An example step for the generic driver: it shows a new session and then has a
  fixed outcome.\<close>

datatype 'e canned = Canned "('e canned, 'e) outcome"

definition canned_call ::
  "'e canned \<Rightarrow> 'e canned MultiStepInput \<Rightarrow> unit
     \<Rightarrow> ('e canned, 'e) outcome \<times> QuickInput option \<times> unit" where
  "canned_call s this w = (case s of Canned out \<Rightarrow> (out, Some (createInputBox\<lparr>shown := True\<rparr>), w))"

text \<open>The driver holds no session that is still undisposed.\<close>

definition session_disposed :: "'s MultiStepInput \<Rightarrow> bool" where
  "session_disposed this = (case current this of None \<Rightarrow> True | Some q \<Rightarrow> disposed q)"

text \<open>The field of the state that a step writes, and the step that follows it.\<close>

definition stored :: "InputStep \<Rightarrow> ProjectState \<Rightarrow> string option" where
  "stored s st =
     (case s of ProjectName \<Rightarrow> name st | ProjectUsername \<Rightarrow> username st
      | ProjectIp \<Rightarrow> ip st | ProjectKeyname \<Rightarrow> key_name st)"

definition is_project_set :: "string \<Rightarrow> bool" where
  "is_project_set line =
     (take (length ''gcloud config set project '') line = ''gcloud config set project '')"

text \<open>Every in-flight validation has a number below the next call's.\<close>

definition fresh :: "prompt_state \<Rightarrow> bool" where
  "fresh st = list_all (\<lambda>e. fst e < next_call st) (in_flight st)"

text \<open>No validation started by an accept is in flight.\<close>

definition no_accept_in_flight :: "prompt_state \<Rightarrow> bool" where
  "no_accept_in_flight st = list_all (\<lambda>e. fst (snd e) \<noteq> ForAccept) (in_flight st)"

text \<open>The only validation started by an accept that is in flight is call \<open>k\<close>.\<close>

definition accept_only :: "nat \<Rightarrow> prompt_state \<Rightarrow> bool" where
  "accept_only k st = list_all (\<lambda>e. fst e = k \<or> fst (snd e) \<noteq> ForAccept) (in_flight st)"

text \<open>The parameters a step of Connect passes to \<^verbatim>\<open>showInputBox\<close> and the rest of its body
  after the \<^verbatim>\<open>await\<close>, read off the four step functions (lemma \<open>InputStep_call_await\<close>
  below shows that they are the steps).\<close>

definition params_of :: "InputStep \<Rightarrow> world \<Rightarrow> InputBoxParameters" where
  "params_of s w =
     (case s of
        ProjectName \<Rightarrow> text_params 1 [] ''Enter the GCP project-name''
      | ProjectUsername \<Rightarrow> text_params 2 [] ''Enter the SSH key username''
      | ProjectIp \<Rightarrow> text_params 3 [] ''Enter the IP address of the GCP compute instance''
      | ProjectKeyname \<Rightarrow>
          text_params 4 (case name (state w) of None \<Rightarrow> [] | Some n \<Rightarrow> n)
            ''Customized key name (GCP project-name by default)'')"

definition body_of :: "InputStep \<Rightarrow> string \<Rightarrow> world \<Rightarrow> InputStep option \<times> world" where
  "body_of s v w =
     (case s of
        ProjectName \<Rightarrow>
          (Some ProjectUsername,
           w\<lparr>state := (state w)\<lparr>name := Some v\<rparr>,
             sent := sent w @ [''gcloud config set project '' @ v]\<rparr>)
      | ProjectUsername \<Rightarrow> (Some ProjectIp, w\<lparr>state := (state w)\<lparr>username := Some v\<rparr>\<rparr>)
      | ProjectIp \<Rightarrow> (Some ProjectKeyname, w\<lparr>state := (state w)\<lparr>ip := Some v\<rparr>\<rparr>)
      | ProjectKeyname \<Rightarrow> (None, w\<lparr>state := (state w)\<lparr>key_name := Some v\<rparr>\<rparr>))"

text \<open>The history of the wizard of Connect just before the loop invokes a step (or
  leaves, for \<open>None\<close>), and the invariant of its loop: the history is that one, the steps
  in it have written their fields, no field holds the reserved name, and every line sent
  so far sets the project.\<close>

definition history_before :: "InputStep option \<Rightarrow> InputStep list" where
  "history_before stp =
     (case stp of
        Some ProjectName \<Rightarrow> []
      | Some ProjectUsername \<Rightarrow> [ProjectName]
      | Some ProjectIp \<Rightarrow> [ProjectName, ProjectUsername]
      | Some ProjectKeyname \<Rightarrow> [ProjectName, ProjectUsername, ProjectIp]
      | None \<Rightarrow> [ProjectName, ProjectUsername, ProjectIp, ProjectKeyname])"

text \<open>The driver as it is left when \<open>Back\<close> is raised by the name step: the history is
  empty and the session is the box of the first prompt, which shows no button.\<close>

definition backed_out :: "InputStep MultiStepInput \<Rightarrow> bool" where
  "backed_out this =
     (steps this = [] \<and> map_option step (current this) = Some 1
      \<and> map_option buttons (current this) = Some [])"

definition wizard_inv :: "InputStep option \<Rightarrow> InputStep MultiStepInput \<Rightarrow> world \<Rightarrow> bool" where
  "wizard_inv stp this w =
     (((steps this = history_before stp
          \<and> list_all (\<lambda>s. stored s (state w) \<noteq> None) (steps this))
        \<or> (stp = None \<and> backed_out this))
      \<and> list_all (\<lambda>s. stored s (state w) \<noteq> Some ''vscode'')
           [ProjectName, ProjectUsername, ProjectIp, ProjectKeyname]
      \<and> list_all is_project_set (sent w))"

definition wizard_final :: "js_error result \<times> InputStep MultiStepInput \<times> world \<Rightarrow> bool" where
  "wizard_final y =
     (case y of (r, this, w) \<Rightarrow>
        list_all (\<lambda>s. stored s (state w) \<noteq> Some ''vscode'')
           [ProjectName, ProjectUsername, ProjectIp, ProjectKeyname]
        \<and> list_all is_project_set (sent w)
        \<and> (case r of
              Resolved \<Rightarrow>
                (steps this = [ProjectName, ProjectUsername, ProjectIp, ProjectKeyname]
                 \<and> list_all (\<lambda>s. stored s (state w) \<noteq> None)
                      [ProjectName, ProjectUsername, ProjectIp, ProjectKeyname])
                \<or> backed_out this
            | Rejected t \<Rightarrow> False
            | NeverSettles \<Rightarrow> True))"

section \<open>Lemmas\<close>

subsection \<open>The driver loop, one iteration at a time\<close>

lemma stepThrough_done:
  "stepThrough call None this w =
     Some (Resolved, this\<lparr>current := map_option dispose (current this)\<rparr>, w)"
  by (subst stepThrough.simps) simp

lemma stepThrough_returns:
  "call s (entered s this) w = (Returns nxt, c, w') \<Longrightarrow>
   stepThrough call (Some s) this w = stepThrough call nxt ((entered s this)\<lparr>current := c\<rparr>) w'"
  by (subst stepThrough.simps) simp

lemma stepThrough_unsettled:
  "call s (entered s this) w = (Unsettled, c, w') \<Longrightarrow>
   stepThrough call (Some s) this w = Some (NeverSettles, (entered s this)\<lparr>current := c\<rparr>, w')"
  by (subst stepThrough.simps) simp

lemma stepThrough_other:
  "call s (entered s this) w = (Throws (Other e), c, w') \<Longrightarrow>
   stepThrough call (Some s) this w = Some (Rejected (Other e), (entered s this)\<lparr>current := c\<rparr>, w')"
  by (subst stepThrough.simps) simp


lemma steps_entered: "steps (entered s this) = steps this @ [s]"
  by (simp add: entered_def)

lemma current_entered: "current (entered s this) = map_option mark_busy (current this)"
  by (simp add: entered_def)

lemma pop_snoc: "pop (xs @ [x]) = (Some x, xs)"
  by (simp add: pop_def)

lemma pop_Nil: "pop [] = (None, [])"
  by (simp add: pop_def)

lemma stepThrough_back:
  "call s (entered s this) w = (Throws (Flow Back), c, w') \<Longrightarrow>
   stepThrough call (Some s) this w =
     stepThrough call (fst (pop (steps this))) (this\<lparr>current := c, steps := snd (pop (steps this))\<rparr>) w'"
proof -
  assume a: "call s (entered s this) w = (Throws (Flow Back), c, w')"
  have e: "(entered s this)\<lparr>current := c, steps := xs\<rparr> = this\<lparr>current := c, steps := xs\<rparr>" for xs
    by (simp add: entered_def)
  show ?thesis
    by (subst stepThrough.simps) (simp add: a steps_entered pop_snoc e Let_def)
qed

lemma stepThrough_resume:
  "call s (entered s this) w = (Throws (Flow Resume), c, w') \<Longrightarrow>
   stepThrough call (Some s) this w =
     stepThrough call (Some s) (this\<lparr>current := c\<rparr>) w'"
proof -
  assume a: "call s (entered s this) w = (Throws (Flow Resume), c, w')"
  have e: "(entered s this)\<lparr>current := c, steps := xs\<rparr> = this\<lparr>current := c, steps := xs\<rparr>" for xs
    by (simp add: entered_def)
  have "stepThrough call (Some s) this w = stepThrough call (Some s) (this\<lparr>current := c, steps := steps this\<rparr>) w'"
    by (subst stepThrough.simps) (simp add: a steps_entered pop_snoc e)
  then show ?thesis by simp
qed

lemma entered_current: "(entered s this)\<lparr>current := c\<rparr> = this\<lparr>steps := steps this @ [s], current := c\<rparr>"
  by (simp add: entered_def)

lemma length_steps_entered: "length (steps (entered s this)) = Suc (length (steps this))"
  by (simp add: entered_def)

text \<open>An invariant of the loop: if every iteration keeps \<open>Inv\<close> and every way out
  of the loop establishes \<open>Final\<close>, then a loop that ends, started in \<open>Inv\<close>, ends in
  \<open>Final\<close>.\<close>

lemma stepThrough_invariant:
  assumes run: "stepThrough call stp this w = Some y"
    and init: "Inv stp this w"
    and ret: "\<And>s this w nxt c w'. Inv (Some s) this w \<Longrightarrow>
        call s (entered s this) w = (Returns nxt, c, w') \<Longrightarrow>
        Inv nxt ((entered s this)\<lparr>current := c\<rparr>) w'"
    and uns: "\<And>s this w c w'. Inv (Some s) this w \<Longrightarrow>
        call s (entered s this) w = (Unsettled, c, w') \<Longrightarrow>
        Final (NeverSettles, (entered s this)\<lparr>current := c\<rparr>, w')"
    and bck: "\<And>s this w c w'. Inv (Some s) this w \<Longrightarrow>
        call s (entered s this) w = (Throws (Flow Back), c, w') \<Longrightarrow>
        Inv (fst (pop (steps this))) (this\<lparr>current := c, steps := snd (pop (steps this))\<rparr>) w'"
    and res: "\<And>s this w c w'. Inv (Some s) this w \<Longrightarrow>
        call s (entered s this) w = (Throws (Flow Resume), c, w') \<Longrightarrow>
        Inv (Some s) (this\<lparr>current := c\<rparr>) w'"
    and can: "\<And>s this w c w'. Inv (Some s) this w \<Longrightarrow>
        call s (entered s this) w = (Throws (Flow Cancel), c, w') \<Longrightarrow>
        Inv None ((entered s this)\<lparr>current := c\<rparr>) w'"
    and other: "\<And>s this w e c w'. Inv (Some s) this w \<Longrightarrow>
        call s (entered s this) w = (Throws (Other e), c, w') \<Longrightarrow>
        Final (Rejected (Other e), (entered s this)\<lparr>current := c\<rparr>, w')"
    and fin: "\<And>this w. Inv None this w \<Longrightarrow>
        Final (Resolved, this\<lparr>current := map_option dispose (current this)\<rparr>, w)"
  shows "Final y"
proof -
  have "call' = call \<longrightarrow> Inv stp this w \<longrightarrow> Final y"
    if "stepThrough call' stp this w = Some y" for call'
    using that
  proof (induction rule: stepThrough.raw_induct [rotated 1, consumes 1])
    case (1 loop call' stp this w y)
    show ?case
    proof (intro impI)
      assume c: "call' = call" and inv: "Inv stp this w"
      show "Final y"
      proof (cases stp)
        case None
        with 1(2) inv fin show ?thesis by auto
      next
        case (Some s)
        obtain out c w' where o: "call s (entered s this) w = (out, c, w')"
          by (cases "call s (entered s this) w")
        have inv': "Inv (Some s) this w" using inv Some by simp
        show ?thesis
        proof (cases out)
          case (Returns nxt)
          with 1(2) Some o c
          have "loop call nxt ((entered s this)\<lparr>current := c\<rparr>) w' = Some y" by simp
          from 1(1) [OF this] ret [OF inv'] o Returns show ?thesis by simp
        next
          case Unsettled
          with 1(2) Some o c have "y = (NeverSettles, (entered s this)\<lparr>current := c\<rparr>, w')"
            by simp
          with uns [OF inv'] o Unsettled show ?thesis by simp
        next
          case (Throws err)
          show ?thesis
          proof (cases err)
            case (Other e)
            with 1(2) Some o c Throws
            have "y = (Rejected (Other e), (entered s this)\<lparr>current := c\<rparr>, w')"
              by simp
            with other [OF inv'] o Throws Other show ?thesis by simp
          next
            case (Flow f)
            have e: "(entered s this)\<lparr>current := c, steps := xs\<rparr>
                = this\<lparr>current := c, steps := xs\<rparr>" for xs
              by (simp add: entered_def)
            show ?thesis
            proof (cases f)
              case Back
              with 1(2) Some o c Throws Flow
              have "loop call (fst (pop (steps this)))
                  (this\<lparr>current := c, steps := snd (pop (steps this))\<rparr>) w' = Some y"
                by (simp add: steps_entered pop_snoc e Let_def)
              from 1(1) [OF this] bck [OF inv'] o Throws Flow Back show ?thesis by simp
            next
              case Cancel
              with 1(2) Some o c Throws Flow
              have "loop call None ((entered s this)\<lparr>current := c\<rparr>) w' = Some y"
                by simp
              from 1(1) [OF this] can [OF inv'] o Throws Flow Cancel show ?thesis by simp
            next
              case Resume
              with 1(2) Some o c Throws Flow
              have "loop call (Some s) (this\<lparr>current := c, steps := steps this\<rparr>) w' = Some y"
                by (simp add: steps_entered pop_snoc e)
              then have "loop call (Some s) (this\<lparr>current := c\<rparr>) w' = Some y" by simp
              from 1(1) [OF this] res [OF inv'] o Throws Flow Resume show ?thesis by simp
            qed
          qed
        qed
      qed
    qed
  qed
  with run init show ?thesis by simp
qed

lemma stepThrough_flow_handled:
  assumes "stepThrough call stp this w = Some y"
  shows "\<forall>t. fst y = Rejected t \<longrightarrow> (\<exists>e. t = Other e)"
  using assms
proof (induction rule: stepThrough.raw_induct [rotated 1, consumes 1])
  case (1 loop call stp this w y)
  then show ?case
    by (auto split: option.splits prod.splits outcome.splits thrown.splits
        InputFlowAction.splits simp: Let_def)
qed

lemma stepThrough_resolved_disposed:
  assumes "stepThrough call stp this w = Some y"
  shows "fst y = Resolved \<longrightarrow> session_disposed (fst (snd y))"
  by (rule stepThrough_invariant [where Inv = "\<lambda>_ _ _. True", OF assms])
    (auto simp: session_disposed_def dispose_def split: option.splits)

subsection \<open>One prompt\<close>

lemma fresh_initial: "fresh (initial_prompt p d)"
  by (simp add: fresh_def initial_prompt_def)

lemma handle_ChangeValue:
  "handle p st (ChangeValue t) =
     (None, st\<lparr>box := (box st)\<lparr>box_value := t\<rparr>,
               in_flight := in_flight st @ [(next_call st, ForChange, t)],
               next_call := Suc (next_call st), validating := next_call st\<rparr>)"
  by (simp add: handle_def start_validate_def Let_def)

lemma handle_Accept:
  "handle p st Accept =
     (None, st\<lparr>in_flight := in_flight st @ [(next_call st, ForAccept, box_value (box st))],
               next_call := Suc (next_call st)\<rparr>)"
  by (simp add: handle_def start_validate_def)

lemma map_of_fresh: "fresh st \<Longrightarrow> map_of (in_flight st @ [(next_call st, x)]) (next_call st) = Some x"
proof -
  assume "fresh st"
  then have "next_call st \<notin> fst ` set (in_flight st)"
    by (auto simp: fresh_def list_all_iff)
  then have "map_of (in_flight st) (next_call st) = None"
    by (simp add: map_of_eq_None_iff)
  then show ?thesis
    by (simp add: map_add_def)
qed

lemma pump_accept:
  assumes "fresh st" "falsy (p_validate p (box_value (box st)))"
  shows "\<exists>st'. pump p st (Accept # ValidationDone (next_call st) # rest)
           = (Some (Resolve (Text (box_value (box st)))), st', rest)
           \<and> buttons (box st') = buttons (box st)"
proof -
  define v where "v = box_value (box st)"
  define st1 where "st1 = st\<lparr>in_flight := in_flight st @ [(next_call st, ForAccept, v)],
               next_call := Suc (next_call st)\<rparr>"
  have h: "handle p st Accept = (None, st1)"
    by (simp add: handle_Accept st1_def v_def)
  have m: "map_of (in_flight st1) (next_call st) = Some (ForAccept, v)"
    unfolding st1_def using map_of_fresh [OF assms(1), of "(ForAccept, v)"] by simp
  have "fst (handle p st1 (ValidationDone (next_call st))) = Some (Resolve (Text v))"
    "buttons (box (snd (handle p st1 (ValidationDone (next_call st))))) = buttons (box st1)"
    using assms(2) by (simp_all add: handle_def m Let_def v_def)
  moreover have "buttons (box st1) = buttons (box st)"
    by (simp add: st1_def)
  ultimately obtain st' where
    "handle p st1 (ValidationDone (next_call st)) = (Some (Resolve (Text v)), st')"
    "buttons (box st') = buttons (box st)"
    by (cases "handle p st1 (ValidationDone (next_call st))") auto
  then show ?thesis
    using h by (simp add: v_def)
qed

lemma keystrokes_map [simp]: "keystrokes (map ChangeValue ts) = ts"
  by (induction ts) simp_all

lemma quiet_map [simp]: "list_all quiet (map ChangeValue ts)"
  by (induction ts) (simp_all add: quiet_def)

lemma typed_entry: "typed ts = entry (map ChangeValue ts) []"
  by (simp add: typed_def entry_def)

lemma one_accept_typed [simp]: "one_accept (map ChangeValue ts) []"
  by (simp add: one_accept_def)

lemma handle_quiet:
  assumes "quiet ev" and "fresh st" and "no_accept_in_flight st" and "p_shouldResume p = Never"
  shows "\<exists>st'. handle p st ev = (None, st') \<and> fresh st' \<and> no_accept_in_flight st'
     \<and> box_value (box st') = accepted (box_value (box st)) (keystrokes [ev])
     \<and> next_call st' = next_call st + length (keystrokes [ev])"
proof (cases ev)
  case (ChangeValue t)
  with assms(2,3) show ?thesis
    by (auto simp: handle_ChangeValue fresh_def no_accept_in_flight_def list_all_iff accepted_def)
next
  case Hide
  with assms show ?thesis
    by (simp add: handle_def accepted_def)
next
  case (ValidationDone n)
  show ?thesis
  proof (cases "map_of (in_flight st) n")
    case None
    with ValidationDone assms show ?thesis
      by (simp add: handle_def accepted_def)
  next
    case (Some at)
    obtain a t where at: "at = (a, t)" by (cases at)
    from Some at have "(n, a, t) \<in> set (in_flight st)"
      by (simp add: map_of_SomeD)
    with assms(3) have na: "a \<noteq> ForAccept"
      by (auto simp: no_accept_in_flight_def list_all_iff)
    have f: "fresh (st\<lparr>in_flight := filter (\<lambda>e. fst e \<noteq> n) (in_flight st)\<rparr>)"
      "no_accept_in_flight (st\<lparr>in_flight := filter (\<lambda>e. fst e \<noteq> n) (in_flight st)\<rparr>)"
      using assms(2,3) by (auto simp: fresh_def no_accept_in_flight_def list_all_iff)
    from na f show ?thesis
      using ValidationDone Some at
      by (cases a)
        (auto simp: handle_def Let_def accepted_def fresh_def no_accept_in_flight_def)
  qed
qed (use assms(1) in \<open>simp_all add: quiet_def\<close>)

lemma keystrokes_quiet_Cons:
  "quiet ev \<Longrightarrow> accepted (accepted init (keystrokes [ev])) (keystrokes es)
     = accepted init (keystrokes (ev # es))"
  "length (keystrokes (ev # es)) = length (keystrokes [ev]) + length (keystrokes es)"
  by (cases ev; simp add: accepted_def quiet_def)+

lemma pump_quiet:
  assumes "list_all quiet es" and "fresh st" and "no_accept_in_flight st"
    and "p_shouldResume p = Never"
  shows "\<exists>st'. pump p st (es @ evs) = pump p st' evs \<and> fresh st'
     \<and> no_accept_in_flight st'
     \<and> box_value (box st') = accepted (box_value (box st)) (keystrokes es)
     \<and> next_call st' = next_call st + length (keystrokes es)"
  using assms(1-3)
proof (induction es arbitrary: st)
  case Nil
  then show ?case by (auto simp: accepted_def)
next
  case (Cons ev es)
  from Cons.prems have q: "quiet ev" "list_all quiet es" by simp_all
  from handle_quiet [OF q(1) Cons.prems(2,3) assms(4)] obtain st1 where st1:
    "handle p st ev = (None, st1)" "fresh st1" "no_accept_in_flight st1"
    "box_value (box st1) = accepted (box_value (box st)) (keystrokes [ev])"
    "next_call st1 = next_call st + length (keystrokes [ev])"
    by blast
  from Cons.IH [OF q(2) st1(2,3)] obtain st' where st':
    "pump p st1 (es @ evs) = pump p st' evs" "fresh st'"
    "box_value (box st') = accepted (box_value (box st1)) (keystrokes es)"
    "next_call st' = next_call st1 + length (keystrokes es)"
    "no_accept_in_flight st'"
    by blast
  have "pump p st ((ev # es) @ evs) = pump p st' evs"
    using st1(1) st'(1) by simp
  moreover have "box_value (box st') = accepted (box_value (box st)) (keystrokes (ev # es))"
    using st'(3) st1(4) keystrokes_quiet_Cons(1) [OF q(1)] by simp
  moreover have "next_call st' = next_call st + length (keystrokes (ev # es))"
    using st'(4) st1(5) keystrokes_quiet_Cons(2) [of ev es] by simp
  ultimately show ?case using st'(2,5) by blast
qed

lemma map_of_filter_other:
  "k \<noteq> n \<Longrightarrow> map_of (filter (\<lambda>e. fst e \<noteq> n) xs) k = map_of xs k"
  by (induction xs) auto

text \<open>While the accept's validation \<open>k\<close> is in flight, an event that is quiet and is not
  its completion leaves the prompt unsettled and that validation in flight.\<close>

lemma handle_pending:
  assumes "quiet ev" and "ev \<noteq> ValidationDone k" and "fresh st" and "accept_only k st"
    and "map_of (in_flight st) k = Some (ForAccept, v)" and "p_shouldResume p = Never"
  shows "\<exists>st'. handle p st ev = (None, st') \<and> fresh st' \<and> accept_only k st'
     \<and> map_of (in_flight st') k = Some (ForAccept, v)"
proof (cases ev)
  case (ChangeValue t)
  with assms(3-5) show ?thesis
    by (auto simp: handle_ChangeValue fresh_def accept_only_def list_all_iff map_add_def)
next
  case Hide
  with assms show ?thesis
    by (simp add: handle_def)
next
  case (ValidationDone n)
  with assms(2) have nk: "k \<noteq> n" by auto
  show ?thesis
  proof (cases "map_of (in_flight st) n")
    case None
    with ValidationDone assms show ?thesis
      by (simp add: handle_def)
  next
    case (Some at)
    obtain a t where at: "at = (a, t)" by (cases at)
    from Some at have "(n, a, t) \<in> set (in_flight st)"
      by (simp add: map_of_SomeD)
    with assms(4) nk have na: "a \<noteq> ForAccept"
      by (auto simp: accept_only_def list_all_iff)
    define st1 where "st1 = st\<lparr>in_flight := filter (\<lambda>e. fst e \<noteq> n) (in_flight st)\<rparr>"
    have f: "fresh st1" "accept_only k st1" "map_of (in_flight st1) k = Some (ForAccept, v)"
      using assms(3-5) map_of_filter_other [OF nk, of "in_flight st"]
      by (auto simp: st1_def fresh_def accept_only_def list_all_iff)
    have "handle p st ev = (None, st1) \<or>
        handle p st ev = (None, st1\<lparr>box := (box st1)\<lparr>validationMessage := p_validate p t\<rparr>\<rparr>)"
      using ValidationDone Some at na
      by (cases a) (auto simp: handle_def Let_def st1_def)
    with f show ?thesis
      by (auto simp: fresh_def accept_only_def)
  qed
qed (use assms(1) in \<open>simp_all add: quiet_def\<close>)

lemma pump_pending:
  assumes "list_all quiet fs" and "ValidationDone k \<notin> set fs" and "fresh st"
    and "accept_only k st" and "map_of (in_flight st) k = Some (ForAccept, v)"
    and "p_shouldResume p = Never"
  shows "\<exists>st'. pump p st (fs @ evs) = pump p st' evs
     \<and> map_of (in_flight st') k = Some (ForAccept, v)"
  using assms(1-5)
proof (induction fs arbitrary: st)
  case Nil
  then show ?case by auto
next
  case (Cons ev fs)
  from Cons.prems have q: "quiet ev" "list_all quiet fs" "ev \<noteq> ValidationDone k"
    "ValidationDone k \<notin> set fs"
    by auto
  from handle_pending [OF q(1,3) Cons.prems(3-5) assms(6)] obtain st1 where st1:
    "handle p st ev = (None, st1)" "fresh st1" "accept_only k st1"
    "map_of (in_flight st1) k = Some (ForAccept, v)"
    by blast
  from Cons.IH [OF q(2,4) st1(2-4)] obtain st' where
    "pump p st1 (fs @ evs) = pump p st' evs" "map_of (in_flight st') k = Some (ForAccept, v)"
    by blast
  then have "pump p st ((ev # fs) @ evs) = pump p st' evs
      \<and> map_of (in_flight st') k = Some (ForAccept, v)"
    using st1(1) by simp
  then show ?case by blast
qed

lemma showInputBox_entry:
  assumes "one_accept es fs" and "p_shouldResume p = Never"
    and "falsy (p_validate p (accepted (p_value p) (keystrokes es)))"
  shows "\<exists>c. showInputBox p this (entry es fs @ rest)
           = (Some (Resolve (Text (accepted (p_value p) (keystrokes es)))), c, rest)"
proof -
  define k where "k = Suc (length (keystrokes es))"
  define v where "v = accepted (p_value p) (keystrokes es)"
  from assms(1) have oa: "list_all quiet es" "list_all quiet fs" "ValidationDone k \<notin> set fs"
    by (simp_all add: one_accept_def k_def)
  define st0 where "st0 = initial_prompt p (length (steps this))"
  have v0: "box_value (box st0) = p_value p" "next_call st0 = 1" "fresh st0"
    "no_accept_in_flight st0"
    by (simp_all add: st0_def initial_prompt_def new_box_def createInputBox_def fresh_def
        no_accept_in_flight_def)
  define tl where "tl = Accept # fs @ ValidationDone k # rest"
  from pump_quiet [OF oa(1) v0(3,4) assms(2), of tl]
  obtain st1 where st1:
    "pump p st0 (es @ tl) = pump p st1 tl"
    "fresh st1" "no_accept_in_flight st1" "box_value (box st1) = v" "next_call st1 = k"
    using v0 by (auto simp: v_def k_def)
  define st2 where "st2 = st1\<lparr>in_flight := in_flight st1 @ [(k, ForAccept, v)],
               next_call := Suc k\<rparr>"
  have h2: "handle p st1 Accept = (None, st2)"
    by (simp add: handle_Accept st2_def st1(4,5))
  have f2: "fresh st2" "accept_only k st2" "map_of (in_flight st2) k = Some (ForAccept, v)"
    using st1(2,3) map_of_fresh [OF st1(2), of "(ForAccept, v)"]
    by (auto simp: st2_def st1(5) fresh_def accept_only_def no_accept_in_flight_def list_all_iff)
  from pump_pending [OF oa(2,3) f2 assms(2), of "ValidationDone k # rest"]
  obtain st3 where st3:
    "pump p st2 (fs @ ValidationDone k # rest) = pump p st3 (ValidationDone k # rest)"
    "map_of (in_flight st3) k = Some (ForAccept, v)"
    by blast
  have "fst (handle p st3 (ValidationDone k)) = Some (Resolve (Text v))"
    using assms(3) st3(2) by (simp add: handle_def Let_def v_def)
  then obtain st4 where "handle p st3 (ValidationDone k) = (Some (Resolve (Text v)), st4)"
    by (cases "handle p st3 (ValidationDone k)") auto
  then have "pump p st3 (ValidationDone k # rest) = (Some (Resolve (Text v)), st4, rest)"
    by simp
  with st3(1) h2 have "pump p st1 tl = (Some (Resolve (Text v)), st4, rest)"
    by (simp add: tl_def)
  with st1(1) have "pump p st0 (entry es fs @ rest) = (Some (Resolve (Text v)), st4, rest)"
    by (simp add: entry_def tl_def k_def)
  then show ?thesis
    by (simp add: showInputBox_def st0_def v_def)
qed




lemma handle_buttons: "buttons (box (snd (handle p st ev))) = buttons (box st)"
  by (simp add: handle_def start_validate_def Let_def
      split: event.splits option.splits promise.splits awaiter.splits prod.splits)

lemma handle_reject:
  "p_shouldResume p = Never \<Longrightarrow> handle p st ev = (Some (Reject f), st') \<Longrightarrow>
   f = Back \<and> ev = TriggerButton QuickInputButtons_Back"
  by (auto simp: handle_def start_validate_def Let_def
      split: event.splits option.splits promise.splits awaiter.splits prod.splits if_splits)

lemma handle_resolve:
  "handle p st ev = (Some (Resolve a), st') \<Longrightarrow>
   (case a of Text v \<Rightarrow> falsy (p_validate p v) | Item b \<Rightarrow> b \<noteq> QuickInputButtons_Back)"
  by (auto simp: handle_def start_validate_def Let_def
      split: event.splits option.splits promise.splits awaiter.splits prod.splits if_splits)

lemma pump_reject:
  "p_shouldResume p = Never \<Longrightarrow> pump p st evs = (Some (Reject f), st', rest) \<Longrightarrow>
   f = Back \<and> TriggerButton QuickInputButtons_Back \<in> set evs"
proof (induction evs arbitrary: st)
  case Nil
  then show ?case by simp
next
  case (Cons ev evs)
  obtain r st1 where h: "handle p st ev = (r, st1)" by (cases "handle p st ev")
  show ?case
  proof (cases r)
    case None
    with Cons.prems h have "pump p st1 evs = (Some (Reject f), st', rest)" by simp
    from Cons.IH [OF Cons.prems(1) this] show ?thesis by simp
  next
    case (Some x)
    with Cons.prems h have "handle p st ev = (Some (Reject f), st')" by simp
    from handle_reject [OF Cons.prems(1) this] show ?thesis by simp
  qed
qed

lemma pump_resolve:
  "pump p st evs = (Some (Resolve a), st', rest) \<Longrightarrow>
   (case a of Text v \<Rightarrow> falsy (p_validate p v) | Item b \<Rightarrow> b \<noteq> QuickInputButtons_Back)"
proof (induction evs arbitrary: st)
  case Nil
  then show ?case by simp
next
  case (Cons ev evs)
  obtain r st1 where h: "handle p st ev = (r, st1)" by (cases "handle p st ev")
  show ?case
  proof (cases r)
    case None
    with Cons.prems h have "pump p st1 evs = (Some (Resolve a), st', rest)" by simp
    from Cons.IH [OF this] show ?thesis .
  next
    case (Some x)
    with Cons.prems h have "handle p st ev = (Some (Resolve a), st')" by simp
    from handle_resolve [OF this] show ?thesis .
  qed
qed

lemma handle_step: "step (box (snd (handle p st ev))) = step (box st)"
  by (simp add: handle_def start_validate_def Let_def
      split: event.splits option.splits promise.splits awaiter.splits prod.splits)

lemma pump_box_static:
  "pump p st evs = (r, st', rest) \<Longrightarrow>
   buttons (box st') = buttons (box st) \<and> step (box st') = step (box st)"
proof (induction evs arbitrary: st)
  case Nil
  then show ?case by simp
next
  case (Cons ev evs)
  obtain r1 st1 where h: "handle p st ev = (r1, st1)" by (cases "handle p st ev")
  have b: "buttons (box st1) = buttons (box st)" "step (box st1) = step (box st)"
    using handle_buttons [of p st ev] handle_step [of p st ev] h by simp_all
  show ?case
  proof (cases r1)
    case None
    with Cons.prems h have "pump p st1 evs = (r, st', rest)" by simp
    from Cons.IH [OF this] b show ?thesis by simp
  next
    case (Some x)
    with Cons.prems h b show ?thesis by auto
  qed
qed

lemma pump_consumes:
  "pump p st evs = (r, st', rest) \<Longrightarrow>
   (case r of None \<Rightarrow> rest = [] | Some x \<Rightarrow> length rest < length evs)"
proof (induction evs arbitrary: st)
  case Nil
  then show ?case by auto
next
  case (Cons ev evs)
  obtain r1 st1 where h: "handle p st ev = (r1, st1)" by (cases "handle p st ev")
  show ?case
  proof (cases r1)
    case None
    with Cons.prems h have "pump p st1 evs = (r, st', rest)" by simp
    from Cons.IH [OF this] show ?thesis by (auto split: option.splits)
  next
    case (Some x)
    with Cons.prems h show ?thesis by auto
  qed
qed

lemma buttons_initial:
  "buttons (box (initial_prompt p d)) = (if 1 < d then [QuickInputButtons_Back] else []) @ p_buttons p"
  by (simp add: initial_prompt_def new_box_def createInputBox_def)

lemma handle_message_unchanged:
  "ev \<noteq> ValidationDone (validating st) \<Longrightarrow>
   validationMessage (box (snd (handle p st ev))) = validationMessage (box st)"
  by (cases ev)
    (auto simp: handle_def start_validate_def Let_def
      split: option.splits promise.splits awaiter.splits prod.splits)

lemma handle_done_change:
  "map_of (in_flight st) n = Some (ForChange, t) \<Longrightarrow>
   handle p st (ValidationDone n) =
     (None, (if n = validating st
             then st\<lparr>in_flight := filter (\<lambda>e. fst e \<noteq> n) (in_flight st),
                     box := (box st)\<lparr>validationMessage := p_validate p t\<rparr>\<rparr>
             else st\<lparr>in_flight := filter (\<lambda>e. fst e \<noteq> n) (in_flight st)\<rparr>))"
  by (simp add: handle_def Let_def)

lemma handle_validating_unchanged:
  "(\<forall>x. ev \<noteq> ChangeValue x) \<Longrightarrow> validating (snd (handle p st ev)) = validating st"
  by (cases ev)
    (auto simp: handle_def start_validate_def Let_def
      split: option.splits promise.splits awaiter.splits prod.splits)

lemma falsy_validate: "falsy (validateNameIsUnique v) \<longleftrightarrow> v \<noteq> ''vscode''"
  by (simp add: falsy_def validateNameIsUnique_def)

subsection \<open>The steps of Connect\<close>

lemma InputStep_call_await:
  "InputStep_call s this w = await_prompt (params_of s w) this w (body_of s)"
  by (cases s)
    (simp_all add: InputStep_call_def params_of_def body_of_def projectName_def
      projectUsername_def projectIp_def projectKeyname_def sendText_def render_def Let_def
      await_prompt_def split: prod.splits option.splits settled.splits)

lemma validate_params_of [simp]: "p_validate (params_of s w) = validateNameIsUnique"
  "p_buttons (params_of s w) = []" "p_shouldResume (params_of s w) = Never"
  "p_step (params_of s w) = (case s of ProjectName \<Rightarrow> 1 | ProjectUsername \<Rightarrow> 2 | ProjectIp \<Rightarrow> 3 | ProjectKeyname \<Rightarrow> 4)"
  by (cases s; simp add: params_of_def text_params_def shouldResume_def)+

lemma p_value_params_of [simp]:
  "p_value (params_of ProjectName w) = []" "p_value (params_of ProjectUsername w) = []"
  "p_value (params_of ProjectIp w) = []"
  "p_value (params_of ProjectKeyname w) = (case name (state w) of None \<Rightarrow> [] | Some n \<Rightarrow> n)"
  by (simp_all add: params_of_def text_params_def)

lemma events_body_of: "events (snd (body_of s v w)) = events w"
  by (cases s) (simp_all add: body_of_def)

lemma forward_entry:
  assumes "events w = entry es fs @ rest" and "one_accept es fs"
    and "accepted (p_value (params_of s w)) (keystrokes es) \<noteq> ''vscode''"
  shows "\<exists>c. stepThrough InputStep_call (Some s) this w =
           stepThrough InputStep_call
             (fst (body_of s (accepted (p_value (params_of s w)) (keystrokes es))
                    (w\<lparr>events := rest\<rparr>)))
             (this\<lparr>steps := steps this @ [s], current := c\<rparr>)
             (snd (body_of s (accepted (p_value (params_of s w)) (keystrokes es))
                    (w\<lparr>events := rest\<rparr>)))"
proof -
  define v where "v = accepted (p_value (params_of s w)) (keystrokes es)"
  have "falsy (p_validate (params_of s w) (accepted (p_value (params_of s w)) (keystrokes es)))"
    using assms(3) by (simp add: falsy_validate)
  from showInputBox_entry [OF assms(2) _ this, of "entered s this" rest]
  obtain c where c: "showInputBox (params_of s w) (entered s this) (entry es fs @ rest)
      = (Some (Resolve (Text v)), c, rest)"
    by (auto simp: v_def)
  have "InputStep_call s (entered s this) w =
      (Returns (fst (body_of s v (w\<lparr>events := rest\<rparr>))), c, snd (body_of s v (w\<lparr>events := rest\<rparr>)))"
    by (simp add: InputStep_call_await await_prompt_def assms(1) c text_of_def split: prod.splits)
  from stepThrough_returns [where call = InputStep_call, OF this] show ?thesis
    by (auto simp: entered_current v_def)
qed




text \<open>What a step of Connect can do: stay unsettled with the script used up, raise
  \<open>Back\<close> when the history has more than one entry, or store an accepted text other than
  the reserved name and return the next step. A settled step has consumed an event.\<close>

lemma InputStep_call_cases:
  assumes "InputStep_call s this w = (out, c, w')"
  shows "(out = Unsettled \<and> w' = w\<lparr>events := []\<rparr>)
       \<or> (out = Throws (Flow Back) \<and> TriggerButton QuickInputButtons_Back \<in> set (events w)
            \<and> (\<exists>rest. w' = w\<lparr>events := rest\<rparr> \<and> length rest < length (events w)))
       \<or> (\<exists>v rest. v \<noteq> ''vscode'' \<and> length rest < length (events w)
            \<and> out = Returns (fst (body_of s v (w\<lparr>events := rest\<rparr>)))
            \<and> w' = snd (body_of s v (w\<lparr>events := rest\<rparr>)))"
proof -
  define p where "p = params_of s w"
  obtain r st rest where pu: "pump p (initial_prompt p (length (steps this))) (events w) = (r, st, rest)"
    by (cases "pump p (initial_prompt p (length (steps this))) (events w)")
  have sh: "showInputBox p this (events w) = (r, Some (box st), rest)"
    by (simp add: showInputBox_def pu)
  have pp: "p_shouldResume p = Never" "p_buttons p = []" "p_validate p = validateNameIsUnique"
    by (simp_all add: p_def)
  note cons = pump_consumes [OF pu]
  show ?thesis
  proof (cases r)
    case None
    with assms sh cons show ?thesis
      by (simp add: InputStep_call_await await_prompt_def p_def [symmetric])
  next
    case (Some x)
    show ?thesis
    proof (cases x)
      case (Reject f)
      from pump_reject [OF pp(1)] pu Some Reject
      have "f = Back" "TriggerButton QuickInputButtons_Back \<in> set (events w)"
        by auto
      with assms sh cons Some Reject show ?thesis
        by (auto simp: InputStep_call_await await_prompt_def p_def [symmetric])
    next
      case (Resolve a)
      from pump_resolve pu Some Resolve
      have "case a of Text v \<Rightarrow> falsy (p_validate p v) | Item b \<Rightarrow> b \<noteq> QuickInputButtons_Back"
        by blast
      then have "text_of a \<noteq> ''vscode''"
        by (cases a) (auto simp: pp falsy_validate text_of_def)
      moreover have "out = Returns (fst (body_of s (text_of a) (w\<lparr>events := rest\<rparr>)))"
        "w' = snd (body_of s (text_of a) (w\<lparr>events := rest\<rparr>))"
        using assms sh Some Resolve
        by (auto simp: InputStep_call_await await_prompt_def p_def [symmetric] split: prod.splits)
      ultimately show ?thesis
        using cons Some by auto
    qed
  qed
qed

text \<open>The session a step of Connect leaves: the box of its prompt, with the step's number
  and with the Back button exactly when the history has more than one entry.\<close>

lemma InputStep_call_box:
  assumes "InputStep_call s this w = (out, c, w')"
  shows "\<exists>q. c = Some q \<and> step q = p_step (params_of s w)
           \<and> buttons q = (if 1 < length (steps this) then [QuickInputButtons_Back] else [])"
proof -
  define p where "p = params_of s w"
  obtain r st rest where pu: "pump p (initial_prompt p (length (steps this))) (events w) = (r, st, rest)"
    by (cases "pump p (initial_prompt p (length (steps this))) (events w)")
  have sh: "showInputBox p this (events w) = (r, Some (box st), rest)"
    by (simp add: showInputBox_def pu)
  have "c = Some (box st)"
    using assms sh
    by (auto simp: InputStep_call_await await_prompt_def p_def [symmetric]
        split: option.splits settled.splits prod.splits)
  moreover have "step (box st) = p_step p"
    "buttons (box st) = (if 1 < length (steps this) then [QuickInputButtons_Back] else [])"
    using pump_box_static [OF pu]
    by (simp_all add: buttons_initial p_def initial_prompt_def new_box_def createInputBox_def)
  ultimately show ?thesis
    by (simp add: p_def)
qed

subsection \<open>The wizard of Connect on any script\<close>

lemma stepThrough_Connect_total: "\<exists>y. stepThrough InputStep_call stp this w = Some y"
proof (induction "length (events w)" arbitrary: stp this w rule: less_induct)
  case less
  show ?case
  proof (cases stp)
    case None
    then show ?thesis by (simp add: stepThrough_done)
  next
    case (Some s)
    obtain out c w' where o: "InputStep_call s (entered s this) w = (out, c, w')"
      by (cases "InputStep_call s (entered s this) w")
    from InputStep_call_cases [OF o]
    consider (uns) "out = Unsettled"
      | (bk) "out = Throws (Flow Back)" "length (events w') < length (events w)"
      | (ret) nxt where "out = Returns nxt" "length (events w') < length (events w)"
      by (auto simp: events_body_of)
    then show ?thesis
    proof cases
      case uns
      with o Some show ?thesis
        by (simp add: stepThrough_unsettled [where call = InputStep_call])
    next
      case bk
      with o have "InputStep_call s (entered s this) w = (Throws (Flow Back), c, w')" by simp
      from stepThrough_back [where call = InputStep_call, OF this] less [OF bk(2)] Some
      show ?thesis by simp
    next
      case ret
      with o have "InputStep_call s (entered s this) w = (Returns nxt, c, w')" by simp
      from stepThrough_returns [where call = InputStep_call, OF this] less [OF ret(2)] Some
      show ?thesis by simp
    qed
  qed
qed

lemma stepThrough_Connect_invariant:
  assumes "stepThrough InputStep_call stp this w = Some y" and "wizard_inv stp this w"
  shows "wizard_final y"
  using assms
proof (rule stepThrough_invariant [where Inv = wizard_inv and Final = wizard_final])
  fix s this w nxt c w'
  assume inv: "wizard_inv (Some s) this w"
    and o: "InputStep_call s (entered s this) w = (Returns nxt, c, w')"
  from InputStep_call_cases [OF o] obtain v rest where
    v: "v \<noteq> ''vscode''" "nxt = fst (body_of s v (w\<lparr>events := rest\<rparr>))"
       "w' = snd (body_of s v (w\<lparr>events := rest\<rparr>))"
    by auto
  show "wizard_inv nxt ((entered s this)\<lparr>current := c\<rparr>) w'"
    using inv v
    by (cases s)
      (auto simp: wizard_inv_def history_before_def body_of_def stored_def entered_def
        is_project_set_def)
next
  fix s this w c w'
  assume inv: "wizard_inv (Some s) this w"
    and o: "InputStep_call s (entered s this) w = (Unsettled, c, w')"
  from InputStep_call_cases [OF o] have "w' = w\<lparr>events := []\<rparr>" by auto
  with inv show "wizard_final (NeverSettles, (entered s this)\<lparr>current := c\<rparr>, w')"
    by (simp add: wizard_inv_def wizard_final_def stored_def)
next
  fix s this w c w'
  assume inv: "wizard_inv (Some s) this w"
    and o: "InputStep_call s (entered s this) w = (Throws (Flow Back), c, w')"
  from InputStep_call_cases [OF o] obtain rest where
    r: "w' = w\<lparr>events := rest\<rparr>"
    by auto
  from InputStep_call_box [OF o] obtain q where
    q: "c = Some q" "step q = p_step (params_of s w)"
       "buttons q = (if 1 < Suc (length (steps this)) then [QuickInputButtons_Back] else [])"
    by (auto simp: length_steps_entered)
  show "wizard_inv (fst (pop (steps this))) (this\<lparr>current := c, steps := snd (pop (steps this))\<rparr>) w'"
    using inv r q
    by (cases s)
      (auto simp: wizard_inv_def history_before_def stored_def pop_def backed_out_def)
next
  fix s this w c w'
  assume "InputStep_call s (entered s this) w = (Throws (Flow Resume), c, w')"
  from InputStep_call_cases [OF this]
  show "wizard_inv (Some s) (this\<lparr>current := c\<rparr>) w'" by simp
next
  fix s this w c w'
  assume "InputStep_call s (entered s this) w = (Throws (Flow Cancel), c, w')"
  from InputStep_call_cases [OF this]
  show "wizard_inv None ((entered s this)\<lparr>current := c\<rparr>) w'" by simp
next
  fix s this w c w' and e :: js_error
  assume "InputStep_call s (entered s this) w = (Throws (Other e), c, w')"
  from InputStep_call_cases [OF this]
  show "wizard_final (Rejected (Other e), (entered s this)\<lparr>current := c\<rparr>, w')" by simp
next
  fix this w
  assume "wizard_inv None this w"
  then show "wizard_final (Resolved, this\<lparr>current := map_option dispose (current this)\<rparr>, w)"
    by (auto simp: wizard_inv_def wizard_final_def history_before_def backed_out_def
        dispose_def option.map_comp comp_def)
qed

lemma collect_is_loop:
  "collectProjectInputs call (initial_world evs)
     = stepThrough call (Some ProjectName) \<lparr>current = None, steps = []\<rparr> (initial_world evs)"
  by (simp add: collectProjectInputs_def MultiStepInput_run_def initial_world_def)

lemma wizard_inv_initial:
  "wizard_inv (Some ProjectName) \<lparr>current = None, steps = []\<rparr> (initial_world evs)"
  by (simp add: wizard_inv_def history_before_def initial_world_def stored_def)

lemma Connect_outcome:
  "\<exists>r this w. collectProjectInputs InputStep_call (initial_world evs) = Some (r, this, w)
     \<and> wizard_final (r, this, w)"
proof -
  from stepThrough_Connect_total
  obtain y where y: "stepThrough InputStep_call (Some ProjectName)
      \<lparr>current = None, steps = []\<rparr> (initial_world evs) = Some y"
    by blast
  from stepThrough_Connect_invariant [OF y wizard_inv_initial] y
  show ?thesis
    by (cases y) (auto simp: collect_is_loop)
qed

lemma state_after_wizard [simp]: "state (after_wizard d w) = state w"
  by (simp add: after_wizard_def sendText_def Let_def)

lemma sent_after_wizard:
  "sent (after_wizard d w) = sent w @
     [''rm -f -r gcp-vscode-ssh/'', ''git clone https://github.com/andrewdircks/gcp-vscode-ssh.git'',
      ''bash gcp-vscode-ssh/script.sh '' @ render d @ '' '' @ render (name (state w))
        @ '' '' @ render (key_name (state w)) @ '' '' @ render (username (state w))
        @ '' '' @ render (ip (state w))]"
  by (simp add: after_wizard_def sendText_def Let_def)

lemma four_prompts_run:
  assumes "one_accept es1 fs1" and "one_accept es2 fs2" and "one_accept es3 fs3"
    and "one_accept es4 fs4"
    and "accepted [] (keystrokes es1) \<noteq> ''vscode''"
    and "accepted [] (keystrokes es2) \<noteq> ''vscode''"
    and "accepted [] (keystrokes es3) \<noteq> ''vscode''"
    and "accepted (accepted [] (keystrokes es1)) (keystrokes es4) \<noteq> ''vscode''"
  shows "\<exists>this. collectProjectInputs InputStep_call
             (initial_world (entry es1 fs1 @ entry es2 fs2 @ entry es3 fs3 @ entry es4 fs4))
           = Some (Resolved, this,
               \<lparr>events = [],
                state = \<lparr>name = Some (accepted [] (keystrokes es1)), username = Some (accepted [] (keystrokes es2)),
                          ip = Some (accepted [] (keystrokes es3)),
                          key_name = Some (accepted (accepted [] (keystrokes es1)) (keystrokes es4))\<rparr>,
                sent = [''gcloud config set project '' @ accepted [] (keystrokes es1)],
                terminal_shown = False, information = []\<rparr>)"
proof -
  define w0 where "w0 = initial_world (entry es1 fs1 @ entry es2 fs2 @ entry es3 fs3 @ entry es4 fs4)"
  define this0 :: "InputStep MultiStepInput" where "this0 = \<lparr>current = None, steps = []\<rparr>"
  define w1 where "w1 = snd (body_of ProjectName (accepted [] (keystrokes es1))
                               (w0\<lparr>events := entry es2 fs2 @ entry es3 fs3 @ entry es4 fs4\<rparr>))"
  define w2 where "w2 = snd (body_of ProjectUsername (accepted [] (keystrokes es2))
                               (w1\<lparr>events := entry es3 fs3 @ entry es4 fs4\<rparr>))"
  define w3 where "w3 = snd (body_of ProjectIp (accepted [] (keystrokes es3)) (w2\<lparr>events := entry es4 fs4\<rparr>))"
  define w4 where "w4 = snd (body_of ProjectKeyname (accepted (accepted [] (keystrokes es1)) (keystrokes es4))
                               (w3\<lparr>events := []\<rparr>))"
  have e0: "events w0 = entry es1 fs1 @ (entry es2 fs2 @ entry es3 fs3 @ entry es4 fs4)"
    by (simp add: w0_def initial_world_def)
  have e1: "events w1 = entry es2 fs2 @ (entry es3 fs3 @ entry es4 fs4)"
    by (simp add: w1_def body_of_def)
  have e2: "events w2 = entry es3 fs3 @ entry es4 fs4"
    by (simp add: w2_def body_of_def)
  have e3: "events w3 = entry es4 fs4 @ []" "name (state w3) = Some (accepted [] (keystrokes es1))"
    by (simp_all add: w3_def w2_def w1_def body_of_def)
  from forward_entry [where s = ProjectName and this = this0, OF e0 assms(1)] assms(5)
  obtain c1 where s1: "stepThrough InputStep_call (Some ProjectName) this0 w0 =
      stepThrough InputStep_call (Some ProjectUsername)
        (this0\<lparr>steps := steps this0 @ [ProjectName], current := c1\<rparr>) w1"
    by (auto simp: w1_def body_of_def)
  from forward_entry [where s = ProjectUsername
      and this = "this0\<lparr>steps := steps this0 @ [ProjectName], current := c1\<rparr>", OF e1 assms(2)] assms(6)
  obtain c2 where s2: "stepThrough InputStep_call (Some ProjectUsername)
        (this0\<lparr>steps := steps this0 @ [ProjectName], current := c1\<rparr>) w1 =
      stepThrough InputStep_call (Some ProjectIp)
        (this0\<lparr>steps := steps this0 @ [ProjectName, ProjectUsername], current := c2\<rparr>) w2"
    by (fastforce simp: w2_def body_of_def)
  from forward_entry [where s = ProjectIp
      and this = "this0\<lparr>steps := steps this0 @ [ProjectName, ProjectUsername], current := c2\<rparr>",
      OF e2 assms(3)] assms(7)
  obtain c3 where s3: "stepThrough InputStep_call (Some ProjectIp)
        (this0\<lparr>steps := steps this0 @ [ProjectName, ProjectUsername], current := c2\<rparr>) w2 =
      stepThrough InputStep_call (Some ProjectKeyname)
        (this0\<lparr>steps := steps this0 @ [ProjectName, ProjectUsername, ProjectIp], current := c3\<rparr>) w3"
    by (fastforce simp: w3_def body_of_def)
  from forward_entry [where s = ProjectKeyname
      and this = "this0\<lparr>steps := steps this0 @ [ProjectName, ProjectUsername, ProjectIp],
                       current := c3\<rparr>", OF e3(1) assms(4)] assms(8) e3(2)
  obtain c4 where s4: "stepThrough InputStep_call (Some ProjectKeyname)
        (this0\<lparr>steps := steps this0 @ [ProjectName, ProjectUsername, ProjectIp], current := c3\<rparr>) w3 =
      stepThrough InputStep_call None
        (this0\<lparr>steps := steps this0 @ [ProjectName, ProjectUsername, ProjectIp, ProjectKeyname],
               current := c4\<rparr>) w4"
    by (fastforce simp: w4_def body_of_def)
  have st: "w4 = \<lparr>events = [],
                state = \<lparr>name = Some (accepted [] (keystrokes es1)), username = Some (accepted [] (keystrokes es2)),
                          ip = Some (accepted [] (keystrokes es3)),
                          key_name = Some (accepted (accepted [] (keystrokes es1)) (keystrokes es4))\<rparr>,
                sent = [''gcloud config set project '' @ accepted [] (keystrokes es1)],
                terminal_shown = False, information = []\<rparr>"
    by (simp add: w4_def w3_def w2_def w1_def w0_def body_of_def initial_world_def)
  have "collectProjectInputs InputStep_call w0 =
      stepThrough InputStep_call (Some ProjectName) this0 w0"
    by (simp add: collectProjectInputs_def MultiStepInput_run_def this0_def w0_def initial_world_def)
  also note s1
  also note s2
  also note s3
  also note s4
  finally show ?thesis
    using st by (simp add: stepThrough_done w0_def)
qed

section \<open>The wizard collects what the user accepts\<close>

text \<open>
  Claim C1. Take any run in which, at each of the four prompts, the user presses Enter
  once and the validation started by that accept completes, whatever else happens at the
  prompt before the Enter and between the Enter and that completion, as long as it
  settles no prompt of Connect: changes of the value, completions of other validations
  (so the accept's may complete after the last keystroke's, as it does with the one
  second timers when Enter follows the keystroke at once), dismissals of the box. Let
  none of the four accepted texts be the reserved name \<open>vscode\<close>. Then the driver loop
  ends and its promise resolves, and the fields \<open>name\<close>, \<open>username\<close>, \<open>ip\<close> and
  \<open>key_name\<close> of the state hold the four accepted texts in the order of entry. The text
  accepted at a prompt is the text in the box when Enter is pressed: the last text typed
  before, or the prompt's initial value when nothing was typed (empty for the first three
  prompts, the name for the fourth).
\<close>

theorem wizard_collects_four_values:
  assumes "one_accept es1 fs1" and "one_accept es2 fs2" and "one_accept es3 fs3"
    and "one_accept es4 fs4"
    and "accepted [] (keystrokes es1) \<noteq> ''vscode''"
    and "accepted [] (keystrokes es2) \<noteq> ''vscode''"
    and "accepted [] (keystrokes es3) \<noteq> ''vscode''"
    and "accepted (accepted [] (keystrokes es1)) (keystrokes es4) \<noteq> ''vscode''"
  shows "\<exists>this w. collectProjectInputs InputStep_call
             (initial_world (entry es1 fs1 @ entry es2 fs2 @ entry es3 fs3 @ entry es4 fs4))
           = Some (Resolved, this, w)
         \<and> state w = \<lparr>name = Some (accepted [] (keystrokes es1)),
                       username = Some (accepted [] (keystrokes es2)),
                       ip = Some (accepted [] (keystrokes es3)),
                       key_name = Some (accepted (accepted [] (keystrokes es1)) (keystrokes es4))\<rparr>"
  using four_prompts_run [OF assms] by auto

theorem wizard_collects_four_values_witness:
  "one_accept [ChangeValue ''proj1''] [ValidationDone 0, ValidationDone 1]
   \<and> one_accept [ChangeValue ''vscode'', ChangeValue ''dev'']
         [ChangeValue ''devx'', ValidationDone 2]
   \<and> one_accept [Hide, ChangeValue ''1.2.3.4''] []
   \<and> one_accept [] [Hide]
   \<and> accepted [] (keystrokes [ChangeValue ''proj1'']) \<noteq> ''vscode''
   \<and> accepted [] (keystrokes [ChangeValue ''vscode'', ChangeValue ''dev'']) \<noteq> ''vscode''
   \<and> accepted [] (keystrokes [Hide, ChangeValue ''1.2.3.4'']) \<noteq> ''vscode''
   \<and> accepted (accepted [] (keystrokes [ChangeValue ''proj1''])) (keystrokes []) \<noteq> ''vscode''
   \<and> (\<exists>this w. collectProjectInputs InputStep_call
             (initial_world
               (entry [ChangeValue ''proj1''] [ValidationDone 0, ValidationDone 1]
                @ entry [ChangeValue ''vscode'', ChangeValue ''dev'']
                    [ChangeValue ''devx'', ValidationDone 2]
                @ entry [Hide, ChangeValue ''1.2.3.4''] [] @ entry [] [Hide]))
           = Some (Resolved, this, w)
         \<and> state w = \<lparr>name = Some ''proj1'', username = Some ''dev'', ip = Some ''1.2.3.4'',
                       key_name = Some ''proj1''\<rparr>)"
  using wizard_collects_four_values
    [where ?es1.0 = "[ChangeValue ''proj1'']" and ?fs1.0 = "[ValidationDone 0, ValidationDone 1]"
       and ?es2.0 = "[ChangeValue ''vscode'', ChangeValue ''dev'']"
       and ?fs2.0 = "[ChangeValue ''devx'', ValidationDone 2]"
       and ?es3.0 = "[Hide, ChangeValue ''1.2.3.4'']" and ?fs3.0 = "[]"
       and ?es4.0 = "[]" and ?fs4.0 = "[Hide]"]
  by (simp add: accepted_def quiet_def one_accept_def)

section \<open>Cancellation\<close>



section \<open>Overlapping validations\<close>

text \<open>
  Claim C3. Each keystroke starts a validation and makes it the one the variable
  \<open>validating\<close> holds; no other event changes that variable. When a keystroke's
  validation completes, its result becomes the validation message of the box if it is
  still the one held, that is if no later keystroke has started another; otherwise the
  message is left as it is. No other event changes the message. So a stale validation
  never overwrites the message, whatever the order of completion: after typing \<open>a\<close> and
  \<open>ab\<close>, with the validation of \<open>ab\<close> completing first and that of \<open>a\<close> second, the
  message is the result for \<open>ab\<close>. (The validation started by pressing Enter is not a
  keystroke's: it neither sets the message nor changes \<open>validating\<close>.)
\<close>

theorem stale_validation_never_shown:
  "(map_of (in_flight st) n = Some (ForChange, t) \<longrightarrow>
      validationMessage (box (snd (handle p st (ValidationDone n))))
        = (if n = validating st then p_validate p t else validationMessage (box st)))
   \<and> (ev \<noteq> ValidationDone (validating st) \<longrightarrow>
        validationMessage (box (snd (handle p st ev))) = validationMessage (box st))
   \<and> validating (snd (handle p st (ChangeValue t'))) = next_call st
   \<and> ((\<forall>x. ev \<noteq> ChangeValue x) \<longrightarrow> validating (snd (handle p st ev)) = validating st)
   \<and> validationMessage (box (fst (snd (pump p (initial_prompt p d)
         [ChangeValue ''a'', ChangeValue ''ab'', ValidationDone 2, ValidationDone 1]))))
       = p_validate p ''ab''"
proof -
  have "validationMessage (box (fst (snd (pump p (initial_prompt p d)
         [ChangeValue ''a'', ChangeValue ''ab'', ValidationDone 2, ValidationDone 1]))))
       = p_validate p ''ab''"
    by (simp add: handle_def start_validate_def Let_def initial_prompt_def)
  then show ?thesis
    using handle_validating_unchanged [of ev p st]
    by (simp add: handle_done_change handle_message_unchanged handle_ChangeValue)
qed

theorem stale_validation_never_shown_witness:
  "map_of (in_flight (fst (snd (pump ((text_params 1 [] [])\<lparr>p_validate := Some\<rparr>)
       (initial_prompt ((text_params 1 [] [])\<lparr>p_validate := Some\<rparr>) 1)
       [ChangeValue ''a'', ChangeValue ''ab'', ValidationDone 2])))) 1 = Some (ForChange, ''a'')
   \<and> validating (fst (snd (pump ((text_params 1 [] [])\<lparr>p_validate := Some\<rparr>)
       (initial_prompt ((text_params 1 [] [])\<lparr>p_validate := Some\<rparr>) 1)
       [ChangeValue ''a'', ChangeValue ''ab'', ValidationDone 2]))) = 2
   \<and> validationMessage (box (fst (snd (pump ((text_params 1 [] [])\<lparr>p_validate := Some\<rparr>)
       (initial_prompt ((text_params 1 [] [])\<lparr>p_validate := Some\<rparr>) 1)
       [ChangeValue ''a'', ChangeValue ''ab'', ValidationDone 2])))) = Some ''ab''
   \<and> validationMessage (box (snd (handle ((text_params 1 [] [])\<lparr>p_validate := Some\<rparr>)
        (fst (snd (pump ((text_params 1 [] [])\<lparr>p_validate := Some\<rparr>)
          (initial_prompt ((text_params 1 [] [])\<lparr>p_validate := Some\<rparr>) 1)
          [ChangeValue ''a'', ChangeValue ''ab'', ValidationDone 2])))
        (ValidationDone 1)))) = Some ''ab''"
proof -
  let ?P = "(text_params 1 [] [])\<lparr>p_validate := Some\<rparr>"
  let ?S = "fst (snd (pump ?P (initial_prompt ?P 1)
       [ChangeValue ''a'', ChangeValue ''ab'', ValidationDone 2]))"
  have h: "map_of (in_flight ?S) 1 = Some (ForChange, ''a'')" "validating ?S = 2"
    "validationMessage (box ?S) = Some ''ab''"
    by (simp_all add: handle_def start_validate_def Let_def initial_prompt_def text_params_def)
  from stale_validation_never_shown [of ?S 1 "''a''" ?P "ValidationDone 1"] h
  have "validationMessage (box (snd (handle ?P ?S (ValidationDone 1)))) = Some ''ab''"
    by simp
  with h show ?thesis by simp
qed

section \<open>Going back\<close>

text \<open>
  Claim C4. Let the running step \<open>s\<close> raise \<open>Back\<close> while the history held a step before
  \<open>s\<close> was pushed, so that it holds at least two steps while \<open>s\<close> runs. Then the loop
  removes \<open>s\<close> and the step before it from the history and invokes that previous step,
  which pushes it again: the previous step runs on the history that preceded \<open>s\<close>, one
  entry shorter than the history \<open>s\<close> ran on, with the session and the world that \<open>s\<close>
  left. What the loop then gives is what that invocation gives: if the previous step
  stays unsettled so does the loop, if it returns nothing the loop resolves and disposes
  the session, if it throws an error the loop is rejected with it; each time the driver
  holds the history that preceded \<open>s\<close> and the session the previous step left. In
  general the loop continues as it does from the previous step. On a forward advance the
  next step runs on a history one entry longer: if it stays unsettled the loop is
  unsettled with both steps in the history.
\<close>

theorem back_rewinds_one_step:
  assumes "steps this \<noteq> []"
    and "call s (entered s this) w = (Throws (Flow Back), c, w')"
  shows "(call (last (steps this))
            (entered (last (steps this)) (this\<lparr>current := c, steps := butlast (steps this)\<rparr>)) w'
          = (Unsettled, c2, w2) \<longrightarrow>
            stepThrough call (Some s) this w = Some (NeverSettles, this\<lparr>current := c2\<rparr>, w2))
       \<and> (call (last (steps this))
            (entered (last (steps this)) (this\<lparr>current := c, steps := butlast (steps this)\<rparr>)) w'
          = (Returns None, c2, w2) \<longrightarrow>
            stepThrough call (Some s) this w
              = Some (Resolved, this\<lparr>current := map_option dispose c2\<rparr>, w2))
       \<and> (call (last (steps this))
            (entered (last (steps this)) (this\<lparr>current := c, steps := butlast (steps this)\<rparr>)) w'
          = (Throws (Other e), c2, w2) \<longrightarrow>
            stepThrough call (Some s) this w
              = Some (Rejected (Other e), this\<lparr>current := c2\<rparr>, w2))
       \<and> stepThrough call (Some s) this w
           = stepThrough call (Some (last (steps this)))
               (this\<lparr>current := c, steps := butlast (steps this)\<rparr>) w'
       \<and> steps (entered (last (steps this)) (this\<lparr>current := c, steps := butlast (steps this)\<rparr>))
           = steps this
       \<and> steps (entered s this) = steps this @ [s]
       \<and> (call s0 (entered s0 this0) w0 = (Returns (Some n), c0, w0')
            \<and> call n (entered n ((entered s0 this0)\<lparr>current := c0\<rparr>)) w0' = (Unsettled, c3, w3)
          \<longrightarrow> stepThrough call (Some s0) this0 w0
               = Some (NeverSettles, this0\<lparr>steps := steps this0 @ [s0, n], current := c3\<rparr>, w3))"
proof -
  define prev where "prev = last (steps this)"
  define this1 where "this1 = this\<lparr>current := c, steps := butlast (steps this)\<rparr>"
  have h: "butlast (steps this) @ [prev] = steps this"
    using assms(1) by (simp add: prev_def)
  have e: "(entered prev this1)\<lparr>current := x\<rparr> = this\<lparr>current := x\<rparr>" for x
    using h by (simp add: entered_def this1_def)
  have b: "stepThrough call (Some s) this w = stepThrough call (Some prev) this1 w'"
    using stepThrough_back [where call = call, OF assms(2)] assms(1)
    by (simp add: pop_def prev_def this1_def)
  have u: "stepThrough call (Some s) this w = Some (NeverSettles, this\<lparr>current := c2\<rparr>, w2)"
    if "call prev (entered prev this1) w' = (Unsettled, c2, w2)"
    using stepThrough_unsettled [where call = call, OF that] b e by simp
  have r: "stepThrough call (Some s) this w
      = Some (Resolved, this\<lparr>current := map_option dispose c2\<rparr>, w2)"
    if "call prev (entered prev this1) w' = (Returns None, c2, w2)"
    using stepThrough_returns [where call = call, OF that] b e by (simp add: stepThrough_done)
  have t: "stepThrough call (Some s) this w = Some (Rejected (Other e), this\<lparr>current := c2\<rparr>, w2)"
    if "call prev (entered prev this1) w' = (Throws (Other e), c2, w2)"
    using stepThrough_other [where call = call, OF that] b e by simp
  have f: "stepThrough call (Some s0) this0 w0
      = Some (NeverSettles, this0\<lparr>steps := steps this0 @ [s0, n], current := c3\<rparr>, w3)"
    if "call s0 (entered s0 this0) w0 = (Returns (Some n), c0, w0')"
      and "call n (entered n ((entered s0 this0)\<lparr>current := c0\<rparr>)) w0' = (Unsettled, c3, w3)"
    using stepThrough_returns [where call = call, OF that(1)]
      stepThrough_unsettled [where call = call, OF that(2)]
    by (simp add: entered_def)
  have "steps (entered prev this1) = steps this" "steps (entered s this) = steps this @ [s]"
    using h by (simp_all add: entered_def this1_def)
  with u r t f b show ?thesis
    unfolding prev_def this1_def by blast
qed

theorem back_rewinds_one_step_witness:
  "let T1 = \<lparr>current = None, steps = [ProjectName]\<rparr>;
       B2 = Some ((new_box (params_of ProjectUsername (initial_world [])) 2)\<lparr>shown := True\<rparr>);
       B1 = Some ((new_box (params_of ProjectName (initial_world [])) 1)\<lparr>shown := True\<rparr>);
       K = Canned (Throws (Flow Back) :: (string canned, string) outcome);
       Q = Some (createInputBox\<lparr>shown := True\<rparr>)
   in steps T1 \<noteq> []
      \<and> InputStep_call ProjectUsername (entered ProjectUsername T1)
            (initial_world [TriggerButton QuickInputButtons_Back])
          = (Throws (Flow Back), B2, initial_world [])
      \<and> InputStep_call ProjectName
            (entered ProjectName (T1\<lparr>current := B2, steps := butlast (steps T1)\<rparr>))
            (initial_world [])
          = (Unsettled, B1, initial_world [])
      \<and> stepThrough InputStep_call (Some ProjectUsername) T1
            (initial_world [TriggerButton QuickInputButtons_Back])
          = Some (NeverSettles, \<lparr>current = B1, steps = [ProjectName]\<rparr>, initial_world [])
      \<and> stepThrough canned_call (Some K) \<lparr>current = None, steps = [Canned (Returns None)]\<rparr> ()
          = Some (Resolved,
              \<lparr>current = map_option dispose Q, steps = [Canned (Returns None)]\<rparr>, ())
      \<and> stepThrough canned_call (Some K)
            \<lparr>current = None, steps = [Canned (Throws (Other ''boom''))]\<rparr> ()
          = Some (Rejected (Other ''boom''),
              \<lparr>current = Q, steps = [Canned (Throws (Other ''boom''))]\<rparr>, ())
      \<and> stepThrough canned_call (Some (Canned (Returns (Some (Canned Unsettled)))))
            \<lparr>current = None, steps = []\<rparr> ()
          = Some (NeverSettles,
              \<lparr>current = Q,
               steps = [Canned (Returns (Some (Canned Unsettled))),
                        Canned (Unsettled :: (string canned, string) outcome)]\<rparr>, ())"
proof -
  let ?T1 = "\<lparr>current = None, steps = [ProjectName]\<rparr> :: InputStep MultiStepInput"
  let ?B2 = "Some ((new_box (params_of ProjectUsername (initial_world [])) 2)\<lparr>shown := True\<rparr>)"
  let ?B1 = "Some ((new_box (params_of ProjectName (initial_world [])) 1)\<lparr>shown := True\<rparr>)"
  let ?K = "Canned (Throws (Flow Back) :: (string canned, string) outcome)"
  let ?Q = "Some (createInputBox\<lparr>shown := True\<rparr>)"
  let ?R = "Canned (Returns None :: (string canned, string) outcome)"
  let ?E = "Canned (Throws (Other ''boom'') :: (string canned, string) outcome)"
  let ?U = "Canned (Unsettled :: (string canned, string) outcome)"
  let ?F = "Canned (Returns (Some ?U))"
  have ne: "steps ?T1 \<noteq> []" by simp
  have h1: "InputStep_call ProjectUsername (entered ProjectUsername ?T1)
         (initial_world [TriggerButton QuickInputButtons_Back])
       = (Throws (Flow Back), ?B2, initial_world [])"
    by code_simp
  have h2: "InputStep_call ProjectName
         (entered ProjectName (?T1\<lparr>current := ?B2, steps := butlast (steps ?T1)\<rparr>))
         (initial_world [])
       = (Unsettled, ?B1, initial_world [])"
    by code_simp
  from back_rewinds_one_step [where call = InputStep_call and ?c2.0 = ?B1
      and ?w2.0 = "initial_world []", OF ne h1] h2
  have a: "stepThrough InputStep_call (Some ProjectUsername) ?T1
         (initial_world [TriggerButton QuickInputButtons_Back])
       = Some (NeverSettles, ?T1\<lparr>current := ?B1\<rparr>, initial_world [])"
    by simp
  have k: "canned_call ?K (entered ?K x) () = (Throws (Flow Back), ?Q, ())" for x
    by (simp add: canned_call_def)
  have b: "stepThrough canned_call (Some ?K) \<lparr>current = None, steps = [?R]\<rparr> ()
       = Some (Resolved, \<lparr>current = None, steps = [?R]\<rparr>\<lparr>current := map_option dispose ?Q\<rparr>, ())"
    using back_rewinds_one_step [where call = canned_call and s = ?K
        and this = "\<lparr>current = None, steps = [?R]\<rparr>" and w = "()" and c = ?Q and w' = "()"
        and ?c2.0 = ?Q and ?w2.0 = "()", OF _ k]
    by (simp add: canned_call_def)
  have c: "stepThrough canned_call (Some ?K) \<lparr>current = None, steps = [?E]\<rparr> ()
       = Some (Rejected (Other ''boom''), \<lparr>current = None, steps = [?E]\<rparr>\<lparr>current := ?Q\<rparr>, ())"
    using back_rewinds_one_step [where call = canned_call and s = ?K
        and this = "\<lparr>current = None, steps = [?E]\<rparr>" and w = "()" and c = ?Q and w' = "()"
        and ?c2.0 = ?Q and ?w2.0 = "()" and e = "''boom''", OF _ k]
    by (simp add: canned_call_def)
  have d: "stepThrough canned_call (Some ?F) \<lparr>current = None, steps = []\<rparr> ()
       = Some (NeverSettles, \<lparr>current = None, steps = []\<rparr>\<lparr>steps := [] @ [?F, ?U], current := ?Q\<rparr>, ())"
    using back_rewinds_one_step [where call = canned_call and s = ?K
        and this = "\<lparr>current = None, steps = [?R]\<rparr>" and w = "()" and c = ?Q and w' = "()"
        and ?s0.0 = ?F and ?this0.0 = "\<lparr>current = None, steps = []\<rparr>" and ?w0.0 = "()"
        and n = ?U and ?c0.0 = ?Q and ?w0'.0 = "()" and ?c3.0 = ?Q and ?w3.0 = "()", OF _ k]
    by (simp add: canned_call_def)
  show ?thesis
    unfolding Let_def using ne h1 h2 a b c d by simp
qed




section \<open>The commands sent to the terminal\<close>

text \<open>
  Claim C6, as the code has it. In the run with the inputs \<open>proj1\<close>, \<open>dev\<close>, \<open>1.2.3.4\<close> and
  the default key name accepted, Connect resolves and has sent exactly: the project-set
  line, the remove line, the clone line, and one script line holding the configured SSH
  directory and the four values. On every script Connect ends and is not rejected; the
  remove, clone and script lines are sent only when the wizard's promise has resolved, and
  they are then the last three lines; every line sent before, and every line sent by a
  run that stays pending, is a project-set line. Those are sent by the name step as soon
  as its prompt resolves, while the wizard is still running.
\<close>

theorem commands_dispatched:
  "(\<exists>w. Connect d (typed [''proj1''] @ typed [''dev''] @ typed [''1.2.3.4''] @ typed [])
          = Some (Resolved, w)
        \<and> state w = \<lparr>name = Some ''proj1'', username = Some ''dev'', ip = Some ''1.2.3.4'',
                      key_name = Some ''proj1''\<rparr>
        \<and> sent w = [''gcloud config set project proj1'', ''rm -f -r gcp-vscode-ssh/'',
                     ''git clone https://github.com/andrewdircks/gcp-vscode-ssh.git'',
                     ''bash gcp-vscode-ssh/script.sh '' @ render d @ '' proj1 proj1 dev 1.2.3.4''])
   \<and> (\<exists>r w. Connect d evs = Some (r, w)
        \<and> (case r of
              Resolved \<Rightarrow>
                (\<exists>pre. list_all is_project_set pre
                   \<and> sent w = pre @
                       [''rm -f -r gcp-vscode-ssh/'',
                        ''git clone https://github.com/andrewdircks/gcp-vscode-ssh.git'',
                        ''bash gcp-vscode-ssh/script.sh '' @ render d @ '' ''
                          @ render (name (state w)) @ '' '' @ render (key_name (state w))
                          @ '' '' @ render (username (state w)) @ '' '' @ render (ip (state w))])
            | Rejected t \<Rightarrow> False
            | NeverSettles \<Rightarrow> list_all is_project_set (sent w)))"
proof -
  from four_prompts_run [where ?es1.0 = "map ChangeValue [''proj1'']" and ?fs1.0 = "[]"
      and ?es2.0 = "map ChangeValue [''dev'']" and ?fs2.0 = "[]"
      and ?es3.0 = "map ChangeValue [''1.2.3.4'']" and ?fs3.0 = "[]"
      and ?es4.0 = "map ChangeValue []" and ?fs4.0 = "[]"]
  obtain this1 where
    "collectProjectInputs InputStep_call
       (initial_world (typed [''proj1''] @ typed [''dev''] @ typed [''1.2.3.4''] @ typed []))
     = Some (Resolved, this1,
         \<lparr>events = [],
          state = \<lparr>name = Some ''proj1'', username = Some ''dev'', ip = Some ''1.2.3.4'',
                    key_name = Some ''proj1''\<rparr>,
          sent = [''gcloud config set project proj1''], terminal_shown = False,
          information = []\<rparr>)"
    by (auto simp: accepted_def typed_entry quiet_def one_accept_def)
  then have a: "\<exists>w. Connect d (typed [''proj1''] @ typed [''dev''] @ typed [''1.2.3.4''] @ typed [])
          = Some (Resolved, w)
        \<and> state w = \<lparr>name = Some ''proj1'', username = Some ''dev'', ip = Some ''1.2.3.4'',
                      key_name = Some ''proj1''\<rparr>
        \<and> sent w = [''gcloud config set project proj1'', ''rm -f -r gcp-vscode-ssh/'',
                     ''git clone https://github.com/andrewdircks/gcp-vscode-ssh.git'',
                     ''bash gcp-vscode-ssh/script.sh '' @ render d @ '' proj1 proj1 dev 1.2.3.4'']"
    by (simp add: Connect_def Connect_with_def sent_after_wizard render_def)
  from Connect_outcome [of evs] obtain r this2 w2 where
    o: "collectProjectInputs InputStep_call (initial_world evs) = Some (r, this2, w2)"
      "wizard_final (r, this2, w2)"
    by blast
  have b: "\<exists>r w. Connect d evs = Some (r, w)
        \<and> (case r of
              Resolved \<Rightarrow>
                (\<exists>pre. list_all is_project_set pre
                   \<and> sent w = pre @
                       [''rm -f -r gcp-vscode-ssh/'',
                        ''git clone https://github.com/andrewdircks/gcp-vscode-ssh.git'',
                        ''bash gcp-vscode-ssh/script.sh '' @ render d @ '' ''
                          @ render (name (state w)) @ '' '' @ render (key_name (state w))
                          @ '' '' @ render (username (state w)) @ '' '' @ render (ip (state w))])
            | Rejected t \<Rightarrow> False
            | NeverSettles \<Rightarrow> list_all is_project_set (sent w))"
  proof (cases r)
    case Resolved
    with o have "Connect d evs = Some (Resolved, after_wizard d w2)"
      "list_all is_project_set (sent w2)"
      by (simp_all add: Connect_def Connect_with_def wizard_final_def)
    then show ?thesis
      by (auto simp: sent_after_wizard)
  next
    case (Rejected t)
    with o show ?thesis by (simp add: wizard_final_def)
  next
    case NeverSettles
    with o show ?thesis
      by (simp add: Connect_def Connect_with_def wizard_final_def)
  qed
  from a b show ?thesis by blast
qed

theorem commands_dispatched_witness:
  "(\<exists>w. Connect (Some ''~/.ssh'')
            (typed [''proj1''] @ typed [''dev''] @ typed [''1.2.3.4''] @ typed [])
          = Some (Resolved, w)
        \<and> sent w = [''gcloud config set project proj1'', ''rm -f -r gcp-vscode-ssh/'',
                     ''git clone https://github.com/andrewdircks/gcp-vscode-ssh.git'',
                     ''bash gcp-vscode-ssh/script.sh ~/.ssh proj1 proj1 dev 1.2.3.4''])
   \<and> (\<exists>w. Connect (Some ''~/.ssh'') (typed [''proj1'']) = Some (NeverSettles, w)
          \<and> list_all is_project_set (sent w))"
proof -
  have "Connect (Some ''~/.ssh'') (typed [''proj1''])
     = Some (NeverSettles,
         \<lparr>events = [],
          state = \<lparr>name = Some ''proj1'', username = None, ip = None, key_name = None\<rparr>,
          sent = [''gcloud config set project proj1''], terminal_shown = False,
          information = []\<rparr>)"
    by code_simp
  with commands_dispatched [of "Some ''~/.ssh''" "typed [''proj1'']"]
  show ?thesis
    by (auto simp: render_def)
qed

text \<open>Where the statement of the specification fails: with only the name accepted the
  wizard has not completed (it waits at the username prompt), and a line built from the
  state has been sent already.\<close>

theorem commands_dispatched_counterexample:
  "Connect (Some ''~/.ssh'') (typed [''proj1''])
     = Some (NeverSettles,
         \<lparr>events = [],
          state = \<lparr>name = Some ''proj1'', username = None, ip = None, key_name = None\<rparr>,
          sent = [''gcloud config set project proj1''], terminal_shown = False,
          information = []\<rparr>)"
  by code_simp

section \<open>The reserved name\<close>

text \<open>
  Claim C7. The validation of the reserved name \<open>vscode\<close> gives the message
  \<open>Name not unique\<close>. With that validator: when the validation started by pressing Enter
  on \<open>vscode\<close> completes, the prompt stays unsettled and the box is enabled and not busy;
  no script of events makes a prompt resolve with the text \<open>vscode\<close>; when the validation
  of the keystroke that typed \<open>vscode\<close> completes as the latest one, the validation
  message of the box is \<open>Name not unique\<close>. And a step of Connect returns (the wizard
  advances) only having stored a text other than \<open>vscode\<close> in its field.
\<close>

theorem reserved_name_never_accepted:
  "validateNameIsUnique ''vscode'' = Some ''Name not unique''
   \<and> (p_validate p = validateNameIsUnique
        \<and> map_of (in_flight st) n = Some (ForAccept, ''vscode'') \<longrightarrow>
      fst (handle p st (ValidationDone n)) = None
      \<and> enabled (box (snd (handle p st (ValidationDone n))))
      \<and> \<not> busy (box (snd (handle p st (ValidationDone n)))))
   \<and> (p_validate p = validateNameIsUnique \<longrightarrow>
        fst (pump p st evs) \<noteq> Some (Resolve (Text ''vscode'')))
   \<and> (p_validate p = validateNameIsUnique
        \<and> map_of (in_flight st) (validating st) = Some (ForChange, ''vscode'') \<longrightarrow>
      validationMessage (box (snd (handle p st (ValidationDone (validating st)))))
        = Some ''Name not unique'')
   \<and> (InputStep_call s this w = (Returns nxt, c, w') \<longrightarrow>
        stored s (state w') \<noteq> None \<and> stored s (state w') \<noteq> Some ''vscode'')"
proof -
  have a: "fst (pump p st evs) \<noteq> Some (Resolve (Text ''vscode''))"
    if "p_validate p = validateNameIsUnique"
  proof
    assume "fst (pump p st evs) = Some (Resolve (Text ''vscode''))"
    then obtain st' rest where "pump p st evs = (Some (Resolve (Text ''vscode'')), st', rest)"
      by (cases "pump p st evs") auto
    from pump_resolve [OF this] that show False
      by (simp add: falsy_validate)
  qed
  have b: "stored s (state w') \<noteq> None \<and> stored s (state w') \<noteq> Some ''vscode''"
    if "InputStep_call s this w = (Returns nxt, c, w')"
    using InputStep_call_cases [OF that]
    by (cases s) (auto simp: body_of_def stored_def)
  show ?thesis
    using a b
    by (auto simp: validateNameIsUnique_def handle_def Let_def falsy_def)
qed

theorem reserved_name_never_accepted_witness:
  "let P = params_of ProjectName (initial_world []);
       S = fst (snd (pump P (initial_prompt P 1) [ChangeValue ''vscode'', Accept]));
       R = InputStep_call ProjectName \<lparr>current = None, steps = [ProjectName]\<rparr>
             (initial_world (typed [''proj1'']))
   in p_validate P = validateNameIsUnique
      \<and> map_of (in_flight S) 2 = Some (ForAccept, ''vscode'')
      \<and> map_of (in_flight S) (validating S) = Some (ForChange, ''vscode'')
      \<and> fst (handle P S (ValidationDone 2)) = None
      \<and> enabled (box (snd (handle P S (ValidationDone 2))))
      \<and> validationMessage (box (snd (handle P S (ValidationDone (validating S)))))
          = Some ''Name not unique''
      \<and> fst (pump P S [ValidationDone 2, ValidationDone 1]) \<noteq> Some (Resolve (Text ''vscode''))
      \<and> R = (Returns (Some ProjectUsername), fst (snd R), snd (snd R))
      \<and> stored ProjectName (state (snd (snd R))) \<noteq> Some ''vscode''"
proof -
  let ?P = "params_of ProjectName (initial_world [])"
  let ?S = "fst (snd (pump ?P (initial_prompt ?P 1) [ChangeValue ''vscode'', Accept]))"
  let ?r = "InputStep_call ProjectName \<lparr>current = None, steps = [ProjectName]\<rparr>
         (initial_world (typed [''proj1'']))"
  have h: "p_validate ?P = validateNameIsUnique"
    "map_of (in_flight ?S) 2 = Some (ForAccept, ''vscode'')"
    "map_of (in_flight ?S) (validating ?S) = Some (ForChange, ''vscode'')"
    by (simp_all add: handle_def start_validate_def Let_def initial_prompt_def)
  have "fst ?r = Returns (Some ProjectUsername)"
    by code_simp
  then have r: "?r = (Returns (Some ProjectUsername), fst (snd ?r), snd (snd ?r))"
    by (metis prod.collapse)
  from reserved_name_never_accepted [of ?P ?S 2 "[ValidationDone 2, ValidationDone 1]"
      ProjectName "\<lparr>current = None, steps = [ProjectName]\<rparr>" "initial_world (typed [''proj1''])"
      "Some ProjectUsername" "fst (snd ?r)" "snd (snd ?r)"] h r
  show ?thesis unfolding Let_def by blast
qed

section \<open>Leaving the loop\<close>

text \<open>
  Claim C8, as the code has it. Whenever the promise of the loop resolves (on completion,
  on \<open>Cancel\<close>, or on \<open>Back\<close> with nothing to go back to) the driver holds no session that
  is not disposed. When a step throws something that is not a flow signal, the loop is
  left at the \<open>throw\<close>: the promise is rejected with that error and \<open>current\<close> is the
  session as the step left it, not disposed by the loop.
\<close>

theorem session_disposed_unless_error:
  "(stepThrough call stp this w = Some (Resolved, this', w') \<longrightarrow> session_disposed this')
   \<and> (call s (entered s this) w = (Throws (Other e), c, w') \<longrightarrow>
        (\<exists>this'. stepThrough call (Some s) this w = Some (Rejected (Other e), this', w')
           \<and> current this' = c))"
  using stepThrough_resolved_disposed [of call stp this w "(Resolved, this', w')"]
    stepThrough_other [of call s this w e c w']
  by simp

theorem session_disposed_unless_error_witness:
  "stepThrough canned_call (Some (Canned (Returns None :: (string canned, string) outcome)))
       \<lparr>current = None, steps = []\<rparr> ()
     = Some (Resolved,
         \<lparr>current = Some (createInputBox\<lparr>shown := True, disposed := True\<rparr>),
          steps = [Canned (Returns None)]\<rparr>, ())
   \<and> session_disposed
         \<lparr>current = Some (createInputBox\<lparr>shown := True, disposed := True\<rparr>),
          steps = [Canned (Returns None :: (string canned, string) outcome)]\<rparr>
   \<and> canned_call (Canned (Throws (Other ''boom'')))
        (entered (Canned (Throws (Other ''boom''))) \<lparr>current = None, steps = []\<rparr>) ()
       = (Throws (Other ''boom''), Some (createInputBox\<lparr>shown := True\<rparr>), ())
   \<and> (\<exists>this'. stepThrough canned_call (Some (Canned (Throws (Other ''boom''))))
          \<lparr>current = None, steps = []\<rparr> () = Some (Rejected (Other ''boom''), this', ())
        \<and> current this' = Some (createInputBox\<lparr>shown := True\<rparr>))"
proof -
  let ?ok = "Canned (Returns None :: (string canned, string) outcome)"
  let ?bad = "Canned (Throws (Other ''boom'') :: (string canned, string) outcome)"
  let ?T0 = "\<lparr>current = None, steps = []\<rparr> :: string canned MultiStepInput"
  let ?T1 = "\<lparr>current = Some (createInputBox\<lparr>shown := True, disposed := True\<rparr>),
          steps = [?ok]\<rparr>"
  have a: "stepThrough canned_call (Some ?ok) ?T0 () = Some (Resolved, ?T1, ())"
    by (simp add: stepThrough_returns [where c = "Some (createInputBox\<lparr>shown := True\<rparr>)"
          and w' = "()" and nxt = None] stepThrough_done canned_call_def entered_def dispose_def)
  have b: "canned_call ?bad (entered ?bad ?T0) ()
       = (Throws (Other ''boom''), Some (createInputBox\<lparr>shown := True\<rparr>), ())"
    by (simp add: canned_call_def)
  from session_disposed_unless_error [where call = canned_call and stp = "Some ?ok"
      and this = ?T0 and w = "()" and this' = ?T1 and w' = "()" and s = ?bad and e = "''boom''"
      and c = "Some (createInputBox\<lparr>shown := True\<rparr>)"] a b
  show ?thesis by blast
qed

text \<open>Where the statement of the specification fails: a step shows a session and throws
  an error; the run is rejected and the session it holds is not disposed.\<close>

theorem session_disposed_counterexample:
  "MultiStepInput_run canned_call (Canned (Throws (Other ''boom''))) ()
     = Some (Rejected (Other ''boom''),
         \<lparr>current = Some (createInputBox\<lparr>shown := True\<rparr>),
          steps = [Canned (Throws (Other ''boom''))]\<rparr>, ())
   \<and> \<not> session_disposed
         \<lparr>current = Some (createInputBox\<lparr>shown := True\<rparr>),
          steps = [Canned (Throws (Other ''boom''))]\<rparr>"
  by (simp add: MultiStepInput_run_def stepThrough_other [where c = "Some (createInputBox\<lparr>shown := True\<rparr>)" and w' = "()"]
      canned_call_def entered_def session_disposed_def createInputBox_def)

text \<open>
  Claim C9. A run is never rejected with a flow signal, and neither is the loop from any
  step, history and world: whatever it is rejected with is an error other than
  \<open>Back\<close>, \<open>Cancel\<close> and \<open>Resume\<close>. And when the running step throws such an error, the
  loop's promise is rejected with that same error.
\<close>

theorem flow_signals_stay_inside:
  "(MultiStepInput_run call start w = Some (Rejected t, this', w') \<longrightarrow> (\<exists>e. t = Other e))
   \<and> (stepThrough call stp this w = Some (Rejected t, this', w') \<longrightarrow> (\<exists>e. t = Other e))
   \<and> (call s (entered s this) w = (Throws (Other e), c, w') \<longrightarrow>
        stepThrough call (Some s) this w
          = Some (Rejected (Other e), (entered s this)\<lparr>current := c\<rparr>, w'))"
  using stepThrough_flow_handled [of call "Some start" "\<lparr>current = None, steps = []\<rparr>" w
      "(Rejected t, this', w')"]
    stepThrough_flow_handled [of call stp this w "(Rejected t, this', w')"]
    stepThrough_other [of call s this w e c w']
  by (simp add: MultiStepInput_run_def)

theorem flow_signals_stay_inside_witness:
  "MultiStepInput_run canned_call (Canned (Throws (Other ''boom''))) ()
     = Some (Rejected (Other ''boom''),
         \<lparr>current = Some (createInputBox\<lparr>shown := True\<rparr>),
          steps = [Canned (Throws (Other ''boom''))]\<rparr>, ())
   \<and> (\<exists>e. Other ''boom'' = (Other e :: string thrown))
   \<and> canned_call (Canned (Throws (Other ''boom'')))
        (entered (Canned (Throws (Other ''boom''))) \<lparr>current = None, steps = []\<rparr>) ()
       = (Throws (Other ''boom''), Some (createInputBox\<lparr>shown := True\<rparr>), ())"
  using flow_signals_stay_inside [of canned_call "Canned (Throws (Other ''boom''))" "()"
      "Other ''boom''" "\<lparr>current = Some (createInputBox\<lparr>shown := True\<rparr>),
          steps = [Canned (Throws (Other ''boom''))]\<rparr>" "()"
      "Some (Canned (Throws (Other ''boom'')))" "\<lparr>current = None, steps = []\<rparr>"
      "Canned (Throws (Other ''boom''))" "''boom''" "Some (createInputBox\<lparr>shown := True\<rparr>)"]
  by (simp add: MultiStepInput_run_def canned_call_def entered_def)

text \<open>
  Claim C10. When the running step raises \<open>Back\<close> and the history held nothing before it
  was pushed, the loop leaves as it does when a step returns nothing: it goes on with no
  step, on the emptied history, so it disposes the session the step left and its promise
  resolves; the step is not run again and nothing is thrown.
\<close>

theorem back_at_first_step_ends_run:
  assumes "steps this = []" and "call s (entered s this) w = (Throws (Flow Back), c, w')"
  shows "stepThrough call (Some s) this w = stepThrough call None (this\<lparr>current := c\<rparr>) w'
       \<and> stepThrough call (Some s) this w
           = Some (Resolved, this\<lparr>current := map_option dispose c\<rparr>, w')"
proof -
  have "stepThrough call (Some s) this w =
      stepThrough call None (this\<lparr>current := c, steps := []\<rparr>) w'"
    using stepThrough_back [where call = call, OF assms(2)] assms(1) by (simp add: pop_def)
  moreover have "this\<lparr>current := c, steps := []\<rparr> = this\<lparr>current := c\<rparr>"
    using assms(1) by simp
  ultimately show ?thesis
    by (simp add: stepThrough_done)
qed

theorem back_at_first_step_ends_run_witness:
  "steps \<lparr>current = None, steps = [] :: string canned list\<rparr> = []
   \<and> canned_call (Canned (Throws (Flow Back)))
        (entered (Canned (Throws (Flow Back))) \<lparr>current = None, steps = []\<rparr>) ()
       = (Throws (Flow Back) :: (string canned, string) outcome, Some (createInputBox\<lparr>shown := True\<rparr>), ())
   \<and> stepThrough canned_call (Some (Canned (Throws (Flow Back) :: (string canned, string) outcome)))
        \<lparr>current = None, steps = []\<rparr> ()
       = Some (Resolved, \<lparr>current = Some (createInputBox\<lparr>shown := True, disposed := True\<rparr>),
                          steps = []\<rparr>, ())"
  using back_at_first_step_ends_run [of "\<lparr>current = None, steps = []\<rparr>" canned_call
      "Canned (Throws (Flow Back) :: (string canned, string) outcome)" "()"
      "Some (createInputBox\<lparr>shown := True\<rparr>)" "()"]
  by (simp add: canned_call_def dispose_def stepThrough_done)

end
